theory Spec2Isabelle
  imports Main "HOL-Library.Multiset" "HOL-Library.Product_Lexorder"
begin

section \<open>Python lists and the grid\<close>

text \<open>
  A cell is the tuple \<open>(x, y)\<close> of the source; the grid is the list of rows
  \<open>grid[y][x]\<close>, holding \<open>1\<close> for a wall and \<open>0\<close> for an open cell.
  Indexing a Python list raises \<open>IndexError\<close> out of range and counts a negative
  index from the end; reading a missing dictionary key raises \<open>KeyError\<close>.
\<close>

datatype py_error = IndexError | KeyError

type_synonym cell = "int \<times> int"
type_synonym grid_t = "int list list"

definition py_index :: "nat \<Rightarrow> int \<Rightarrow> nat option" where
  "py_index n i =
     (if 0 \<le> i \<and> i < int n then Some (nat i)
      else if - int n \<le> i \<and> i < 0 then Some (nat (i + int n))
      else None)"

definition py_get :: "'a list \<Rightarrow> int \<Rightarrow> py_error + 'a" where
  "py_get xs i = (case py_index (length xs) i of None \<Rightarrow> Inl IndexError | Some j \<Rightarrow> Inr (xs ! j))"

definition py_set :: "'a list \<Rightarrow> int \<Rightarrow> 'a \<Rightarrow> py_error + 'a list" where
  "py_set xs i v = (case py_index (length xs) i of None \<Rightarrow> Inl IndexError | Some j \<Rightarrow> Inr (xs[j := v]))"

text \<open>\<open>grid[y][x]\<close> and \<open>grid[y][x] = v\<close>.\<close>

definition grid_get :: "grid_t \<Rightarrow> int \<Rightarrow> int \<Rightarrow> py_error + int" where
  "grid_get g x y = (case py_get g y of Inl e \<Rightarrow> Inl e | Inr row \<Rightarrow> py_get row x)"

definition grid_set :: "grid_t \<Rightarrow> int \<Rightarrow> int \<Rightarrow> int \<Rightarrow> py_error + grid_t" where
  "grid_set g x y v =
     (case py_get g y of Inl e \<Rightarrow> Inl e
      | Inr row \<Rightarrow> (case py_set row x v of Inl e \<Rightarrow> Inl e | Inr row' \<Rightarrow> py_set g y row'))"

text \<open>A grid of \<open>h\<close> rows of \<open>w\<close> cells each.\<close>

definition rect :: "int \<Rightarrow> int \<Rightarrow> grid_t \<Rightarrow> bool" where
  "rect w h g \<longleftrightarrow> length g = nat h \<and> (\<forall>row \<in> set g. length row = nat w)"

lemma grid_get_rect:
  assumes "rect w h g" "0 \<le> x" "x < w" "0 \<le> y" "y < h"
  shows "grid_get g x y = Inr (g ! nat y ! nat x)"
proof -
  from assms have y: "nat y < length g" by (simp add: rect_def)
  then have "g ! nat y \<in> set g" by simp
  with assms have "length (g ! nat y) = nat w" by (simp add: rect_def)
  with assms y show ?thesis
    by (simp add: grid_get_def py_get_def py_index_def rect_def)
qed

lemma grid_set_rect:
  assumes "rect w h g" "0 \<le> x" "x < w" "0 \<le> y" "y < h"
  shows "grid_set g x y v = Inr (g[nat y := (g ! nat y)[nat x := v]])"
proof -
  from assms have y: "nat y < length g" by (simp add: rect_def)
  then have "g ! nat y \<in> set g" by simp
  with assms have "length (g ! nat y) = nat w" by (simp add: rect_def)
  with assms y show ?thesis
    by (simp add: grid_set_def py_get_def py_set_def py_index_def rect_def)
qed

lemma rect_update:
  assumes "rect w h g"
  shows "rect w h (g[j := (g ! j)[i := v]])"
proof (cases "j < length g")
  case True
  then have "g ! j \<in> set g" by simp
  with assms have "length ((g ! j)[i := v]) = nat w" by (simp add: rect_def)
  with assms show ?thesis
    by (auto simp: rect_def dest!: set_update_subset_insert [THEN subsetD])
next
  case False
  with assms show ?thesis by (simp add: list_update_beyond)
qed

lemma grid_get_update:
  assumes "rect w h g" "0 \<le> x" "x < w" "0 \<le> y" "y < h" "0 \<le> x'" "0 \<le> y'"
  shows "grid_get (g[nat y := (g ! nat y)[nat x := v]]) x' y' =
           (if x' = x \<and> y' = y then Inr v else grid_get g x' y')"
proof -
  from assms have y: "nat y < length g" by (simp add: rect_def)
  then have "g ! nat y \<in> set g" by simp
  with assms have len: "length (g ! nat y) = nat w" by (simp add: rect_def)
  show ?thesis
  proof (cases "y' = y")
    case True
    with assms y len show ?thesis
      by (auto simp: grid_get_def py_get_def py_index_def nth_list_update)
  next
    case False
    with assms have "nat y' \<noteq> nat y" by simp
    with assms y False show ?thesis
      by (auto simp: grid_get_def py_get_def py_index_def)
  qed
qed

lemma grid_set_cases:
  assumes "rect w h g" "0 \<le> x" "x < w" "0 \<le> y" "y < h"
  obtains g' where "grid_set g x y v = Inr g'" "rect w h g'"
    "\<forall>x' y'. 0 \<le> x' \<longrightarrow> 0 \<le> y' \<longrightarrow>
       grid_get g' x' y' = (if x' = x \<and> y' = y then Inr v else grid_get g x' y')"
proof -
  let ?g' = "g[nat y := (g ! nat y)[nat x := v]]"
  have 1: "grid_set g x y v = Inr ?g'" by (rule grid_set_rect [OF assms])
  have 2: "rect w h ?g'" by (rule rect_update [OF assms(1)])
  have 3: "\<forall>x' y'. 0 \<le> x' \<longrightarrow> 0 \<le> y' \<longrightarrow>
       grid_get ?g' x' y' = (if x' = x \<and> y' = y then Inr v else grid_get g x' y')"
    by (intro allI impI) (rule grid_get_update [OF assms])
  from 1 2 3 show thesis by (rule that)
qed

section \<open>MazeGenerator\<close>

record maze_generator =
  width :: int
  height :: int
  grid :: grid_t
  directions :: "(int \<times> int) list"

text \<open>\<open>MazeGenerator.__init__\<close>: a grid of \<open>height\<close> rows of \<open>width\<close> walls.\<close>

definition MazeGenerator :: "int \<Rightarrow> int \<Rightarrow> maze_generator" where
  "MazeGenerator w h =
     \<lparr>width = w, height = h, grid = replicate (nat h) (replicate (nat w) 1),
      directions = [(-2, 0), (2, 0), (0, -2), (0, 2)]\<rparr>"

text \<open>
  What \<open>generate\<close> yields when \<open>animate\<close> is set: the carved cell \<open>(nx, ny)\<close>, or
  \<open>None\<close> after a pop.
\<close>

datatype gen_event = Carved cell | StepBoundary

text \<open>
  The local state of a run of \<open>generate\<close>: the generator object, the stack (a Python
  list, top at the end), the state of the random number generator and the events
  yielded so far.
\<close>

record 'r gen_state =
  gen :: maze_generator
  stack :: "cell list"
  rng :: 'r
  events :: "gen_event list"

text \<open>
  \<open>random.shuffle\<close> permutes a list in place and advances the generator's state; it
  is a parameter of the model.
\<close>

type_synonym 'r shuffle_t = "'r \<Rightarrow> (int \<times> int) list \<Rightarrow> (int \<times> int) list \<times> 'r"

text \<open>The test of lines 50 and 51 on the direction \<open>(dx, dy)\<close> from \<open>(x, y)\<close>.\<close>

definition is_target :: "maze_generator \<Rightarrow> cell \<Rightarrow> int \<times> int \<Rightarrow> py_error + bool" where
  "is_target self c d =
     (let nx = fst c + fst d; ny = snd c + snd d in
      if 1 \<le> nx \<and> nx < width self - 1 \<and> 1 \<le> ny \<and> ny < height self - 1
      then (case grid_get (grid self) nx ny of Inl e \<Rightarrow> Inl e | Inr v \<Rightarrow> Inr (v = 1))
      else Inr False)"

text \<open>Lines 52 and 53: open the neighbour, then the cell between it and \<open>(x, y)\<close>.\<close>

definition carve_room :: "grid_t \<Rightarrow> cell \<Rightarrow> int \<times> int \<Rightarrow> py_error + grid_t" where
  "carve_room g c d = grid_set g (fst c + fst d) (snd c + snd d) 0"

definition carve_link :: "grid_t \<Rightarrow> cell \<Rightarrow> int \<times> int \<Rightarrow> py_error + grid_t" where
  "carve_link g c d = grid_set g (fst c + fst d div 2) (snd c + snd d div 2) 0"

definition carve :: "maze_generator \<Rightarrow> cell \<Rightarrow> int \<times> int \<Rightarrow> py_error + maze_generator" where
  "carve self c d =
     (case carve_room (grid self) c d of Inl e \<Rightarrow> Inl e
      | Inr g1 \<Rightarrow> (case carve_link g1 c d of Inl e \<Rightarrow> Inl e
                   | Inr g2 \<Rightarrow> Inr (self\<lparr>grid := g2\<rparr>)))"

text \<open>
  The \<open>for\<close> loop of lines 48 to 58: the first direction that passes the test is
  carved and ends the loop; the result is the generator and the cell pushed, or
  \<open>None\<close> when no direction was carved.
\<close>

fun scan_dirs :: "maze_generator \<Rightarrow> cell \<Rightarrow> (int \<times> int) list
    \<Rightarrow> py_error + (maze_generator \<times> cell) option" where
  "scan_dirs self c [] = Inr None"
| "scan_dirs self c (d # ds) =
     (case is_target self c d of Inl e \<Rightarrow> Inl e
      | Inr True \<Rightarrow> (case carve self c d of Inl e \<Rightarrow> Inl e
                     | Inr self' \<Rightarrow> Inr (Some (self', (fst c + fst d, snd c + snd d))))
      | Inr False \<Rightarrow> scan_dirs self c ds)"

text \<open>One iteration of the \<open>while\<close> loop, for a non-empty stack.\<close>

definition gen_step :: "'r shuffle_t \<Rightarrow> bool \<Rightarrow> 'r gen_state \<Rightarrow> py_error + 'r gen_state" where
  "gen_step shuffle animate st =
     (let c = last (stack st);
          (ds, r) = shuffle (rng st) (directions (gen st));
          self = (gen st)\<lparr>directions := ds\<rparr>
      in case scan_dirs self c ds of
           Inl e \<Rightarrow> Inl e
         | Inr (Some (self', n)) \<Rightarrow>
             Inr (st\<lparr>gen := self', stack := stack st @ [n], rng := r,
                     events := events st @ (if animate then [Carved n] else [])\<rparr>)
         | Inr None \<Rightarrow>
             Inr (st\<lparr>gen := self, stack := butlast (stack st), rng := r,
                     events := events st @ (if animate then [StepBoundary] else [])\<rparr>))"

text \<open>The number of cells that hold \<open>1\<close>.\<close>

definition walls :: "grid_t \<Rightarrow> nat" where
  "walls g = sum_list (map (\<lambda>row. length (filter (\<lambda>v. v = 1) row)) g)"

lemma py_index_less: "py_index n i = Some j \<Longrightarrow> j < n"
  by (auto simp: py_index_def split: if_splits)

lemma walls_update_le:
  assumes "j < length g" "length (filter (\<lambda>v. v = 1) row') \<le> length (filter (\<lambda>v. v = 1) (g ! j))"
  shows "walls (g[j := row']) \<le> walls g"
proof -
  have "sum_list (map f (xs[j := r])) \<le> sum_list (map f xs)"
    if "j < length xs" "f r \<le> f (xs ! j)" for f :: "int list \<Rightarrow> nat" and xs r
    using that by (induction xs arbitrary: j) (auto split: nat.splits)
  from this [OF assms(1), of "\<lambda>row. length (filter (\<lambda>v. v = 1) row)" row'] assms(2)
  show ?thesis by (simp add: walls_def)
qed

lemma walls_update_less:
  assumes "j < length g" "length (filter (\<lambda>v. v = 1) row') < length (filter (\<lambda>v. v = 1) (g ! j))"
  shows "walls (g[j := row']) < walls g"
proof -
  have "sum_list (map f (xs[j := r])) < sum_list (map f xs)"
    if "j < length xs" "f r < f (xs ! j)" for f :: "int list \<Rightarrow> nat" and xs r
    using that by (induction xs arbitrary: j) (auto split: nat.splits)
  from this [OF assms(1), of "\<lambda>row. length (filter (\<lambda>v. v = 1) row)" row'] assms(2)
  show ?thesis by (simp add: walls_def)
qed

lemma filter_update_zero_le:
  "length (filter (\<lambda>v. v = (1::int)) (row[i := 0])) \<le> length (filter (\<lambda>v. v = 1) row)"
  by (induction row arbitrary: i) (auto split: nat.splits)

lemma filter_update_zero_less:
  "i < length row \<Longrightarrow> row ! i = (1::int) \<Longrightarrow>
   length (filter (\<lambda>v. v = 1) (row[i := 0])) < length (filter (\<lambda>v. v = 1) row)"
proof (induction row arbitrary: i)
  case Nil
  then show ?case by simp
next
  case (Cons a row)
  show ?case
  proof (cases i)
    case 0
    with Cons.prems show ?thesis by simp
  next
    case (Suc k)
    with Cons.prems Cons.IH [of k] show ?thesis by simp
  qed
qed

lemma grid_set_walls_le: "grid_set g x y 0 = Inr g' \<Longrightarrow> walls g' \<le> walls g"
  by (auto simp: grid_set_def py_get_def py_set_def split: option.splits sum.splits
      intro!: walls_update_le filter_update_zero_le dest: py_index_less)

lemma grid_set_walls_less:
  "grid_get g x y = Inr 1 \<Longrightarrow> grid_set g x y 0 = Inr g' \<Longrightarrow> walls g' < walls g"
  by (auto simp: grid_set_def grid_get_def py_get_def py_set_def split: option.splits sum.splits
      intro!: walls_update_less filter_update_zero_less dest: py_index_less)

lemma carve_walls_less:
  "is_target self c d = Inr True \<Longrightarrow> carve self c d = Inr self' \<Longrightarrow>
   walls (grid self') < walls (grid self)"
proof -
  assume t: "is_target self c d = Inr True" and c: "carve self c d = Inr self'"
  from c obtain g1 where g1: "carve_room (grid self) c d = Inr g1"
    and g2: "carve_link g1 c d = Inr (grid self')"
    by (auto simp: carve_def split: sum.splits)
  from t have "grid_get (grid self) (fst c + fst d) (snd c + snd d) = Inr 1"
    by (auto simp: is_target_def Let_def split: if_splits sum.splits)
  with g1 have "walls g1 < walls (grid self)"
    unfolding carve_room_def by (simp add: grid_set_walls_less)
  moreover from g2 have "walls (grid self') \<le> walls g1"
    unfolding carve_link_def by (rule grid_set_walls_le)
  ultimately show ?thesis by simp
qed

lemma scan_dirs_Some_walls:
  "scan_dirs self c ds = Inr (Some (self', n)) \<Longrightarrow> walls (grid self') < walls (grid self)"
  by (induction ds) (auto split: sum.splits bool.splits dest: carve_walls_less)

lemma gen_step_decreases:
  "gen_step shuffle animate st = Inr st' \<Longrightarrow> stack st \<noteq> [] \<Longrightarrow>
   walls (grid (gen st')) < walls (grid (gen st)) \<or>
   walls (grid (gen st')) = walls (grid (gen st)) \<and> length (stack st') < length (stack st)"
  by (auto simp: gen_step_def Let_def split: prod.splits sum.splits option.splits
      dest: scan_dirs_Some_walls)

text \<open>
  The \<open>while stack\<close> loop. Every carve turns a \<open>1\<close> into \<open>0\<close> and every other
  iteration pops the stack, so the loop ends from any state.
\<close>

function generate_loop :: "'r shuffle_t \<Rightarrow> bool \<Rightarrow> 'r gen_state \<Rightarrow> py_error + 'r gen_state" where
  "generate_loop shuffle animate st =
     (if stack st = [] then Inr st
      else (case gen_step shuffle animate st of
              Inl e \<Rightarrow> Inl e
            | Inr st' \<Rightarrow> generate_loop shuffle animate st'))"
  by pat_completeness auto
termination
proof (relation "inv_image (less_than <*lex*> less_than)
    (\<lambda>(shuffle, animate, st). (walls (grid (gen st)), length (stack st)))")
  show "wf (inv_image (less_than <*lex*> less_than)
    (\<lambda>(shuffle :: 'r shuffle_t, animate :: bool, st :: 'r gen_state).
       (walls (grid (gen st)), length (stack st))))"
    by (intro wf_inv_image wf_lex_prod wf_less_than)
next
  fix shuffle :: "'r shuffle_t" and animate st st'
  assume "stack st \<noteq> []" "gen_step shuffle animate st = Inr st'"
  from gen_step_decreases [OF this(2,1)]
  show "((shuffle, animate, st'), (shuffle, animate, st))
    \<in> inv_image (less_than <*lex*> less_than)
       (\<lambda>(shuffle, animate, st). (walls (grid (gen st)), length (stack st)))"
    by auto
qed

declare generate_loop.simps [simp del]

text \<open>\<open>generate\<close>: open \<open>(1, 1)\<close>, push it, and run the loop.\<close>

definition generate_init :: "maze_generator \<Rightarrow> 'r \<Rightarrow> py_error + 'r gen_state" where
  "generate_init self seed =
     (case grid_set (grid self) 1 1 0 of Inl e \<Rightarrow> Inl e
      | Inr g \<Rightarrow> Inr \<lparr>gen = self\<lparr>grid := g\<rparr>, stack = [(1, 1)], rng = seed, events = []\<rparr>)"

definition generate :: "'r shuffle_t \<Rightarrow> bool \<Rightarrow> maze_generator \<Rightarrow> 'r \<Rightarrow> py_error + 'r gen_state" where
  "generate shuffle animate self seed =
     (case generate_init self seed of Inl e \<Rightarrow> Inl e
      | Inr st \<Rightarrow> generate_loop shuffle animate st)"


text \<open>
  The loop head after at most \<open>n\<close> iterations: the points at which the loop of
  \<open>generate\<close> can be observed.
\<close>

fun gen_iter :: "'r shuffle_t \<Rightarrow> bool \<Rightarrow> nat \<Rightarrow> 'r gen_state \<Rightarrow> py_error + 'r gen_state" where
  "gen_iter shuffle animate 0 st = Inr st"
| "gen_iter shuffle animate (Suc n) st =
     (if stack st = [] then Inr st
      else (case gen_step shuffle animate st of
              Inl e \<Rightarrow> Inl e
            | Inr st' \<Rightarrow> gen_iter shuffle animate n st'))"

subsection \<open>Interior and border\<close>

definition interior :: "int \<Rightarrow> int \<Rightarrow> cell \<Rightarrow> bool" where
  "interior w h c \<longleftrightarrow> 1 \<le> fst c \<and> fst c < w - 1 \<and> 1 \<le> snd c \<and> snd c < h - 1"

definition on_border :: "int \<Rightarrow> int \<Rightarrow> cell \<Rightarrow> bool" where
  "on_border w h c \<longleftrightarrow>
     0 \<le> fst c \<and> fst c < w \<and> 0 \<le> snd c \<and> snd c < h \<and>
     (fst c = 0 \<or> fst c = w - 1 \<or> snd c = 0 \<or> snd c = h - 1)"

definition border_walls :: "int \<Rightarrow> int \<Rightarrow> grid_t \<Rightarrow> bool" where
  "border_walls w h g \<longleftrightarrow> (\<forall>c. on_border w h c \<longrightarrow> grid_get g (fst c) (snd c) = Inr 1)"

lemma rect_MazeGenerator: "rect w h (grid (MazeGenerator w h))"
  by (simp add: rect_def MazeGenerator_def)

lemma grid_get_MazeGenerator:
  "0 \<le> x \<Longrightarrow> x < w \<Longrightarrow> 0 \<le> y \<Longrightarrow> y < h \<Longrightarrow> grid_get (grid (MazeGenerator w h)) x y = Inr 1"
  by (simp add: grid_get_rect [OF rect_MazeGenerator]) (simp add: MazeGenerator_def)

subsection \<open>The border stays closed\<close>

definition gen_ok :: "int \<Rightarrow> int \<Rightarrow> 'r gen_state \<Rightarrow> bool" where
  "gen_ok w h st \<longleftrightarrow>
     width (gen st) = w \<and> height (gen st) = h \<and> rect w h (grid (gen st)) \<and>
     (\<forall>c \<in> set (stack st). interior w h c) \<and> border_walls w h (grid (gen st))"

lemma floor_half_between:
  fixes a d :: int
  assumes "1 \<le> a" "a < m" "1 \<le> a + d" "a + d < m"
  shows "1 \<le> a + d div 2" "a + d div 2 < m"
  using assms by linarith+

lemma carve_ok:
  assumes r: "rect w h g" and b: "border_walls w h g" and c: "interior w h c"
    and n: "interior w h (fst c + fst d, snd c + snd d)"
  obtains g1 g2 where "carve_room g c d = Inr g1" "rect w h g1" "border_walls w h g1"
    "carve_link g1 c d = Inr g2" "rect w h g2" "border_walls w h g2"
proof -
  let ?nx = "fst c + fst d" and ?ny = "snd c + snd d"
  let ?lx = "fst c + fst d div 2" and ?ly = "snd c + snd d div 2"
  from n have nr: "0 \<le> ?nx" "?nx < w" "0 \<le> ?ny" "?ny < h" by (auto simp: interior_def)
  from c n have "1 \<le> ?lx" "?lx < w - 1" "1 \<le> ?ly" "?ly < h - 1"
    unfolding interior_def fst_conv snd_conv by (blast intro: floor_half_between)+
  then have lr: "0 \<le> ?lx" "?lx < w" "0 \<le> ?ly" "?ly < h" and lb: "\<not> on_border w h (?lx, ?ly)"
    by (auto simp: on_border_def)
  from n have nb: "\<not> on_border w h (?nx, ?ny)" by (auto simp: interior_def on_border_def)
  obtain g1 where g1: "grid_set g ?nx ?ny 0 = Inr g1" "rect w h g1"
    "\<forall>x' y'. 0 \<le> x' \<longrightarrow> 0 \<le> y' \<longrightarrow>
       grid_get g1 x' y' = (if x' = ?nx \<and> y' = ?ny then Inr 0 else grid_get g x' y')"
    using grid_set_cases [OF r nr, where v = 0] by blast
  obtain g2 where g2: "grid_set g1 ?lx ?ly 0 = Inr g2" "rect w h g2"
    "\<forall>x' y'. 0 \<le> x' \<longrightarrow> 0 \<le> y' \<longrightarrow>
       grid_get g2 x' y' = (if x' = ?lx \<and> y' = ?ly then Inr 0 else grid_get g1 x' y')"
    using grid_set_cases [OF g1(2) lr, where v = 0] by blast
  have b1: "border_walls w h g1"
    unfolding border_walls_def
  proof (intro allI impI)
    fix k assume k: "on_border w h k"
    with nb have "k \<noteq> (?nx, ?ny)" by auto
    moreover from k have "0 \<le> fst k" "0 \<le> snd k" by (auto simp: on_border_def)
    ultimately have "grid_get g1 (fst k) (snd k) = grid_get g (fst k) (snd k)"
      by (cases k) (auto simp: g1(3))
    with b k show "grid_get g1 (fst k) (snd k) = Inr 1" by (simp add: border_walls_def)
  qed
  have b2: "border_walls w h g2"
    unfolding border_walls_def
  proof (intro allI impI)
    fix k assume k: "on_border w h k"
    with lb have "k \<noteq> (?lx, ?ly)" by auto
    moreover from k have "0 \<le> fst k" "0 \<le> snd k" by (auto simp: on_border_def)
    ultimately have "grid_get g2 (fst k) (snd k) = grid_get g1 (fst k) (snd k)"
      by (cases k) (auto simp: g2(3))
    with b1 k show "grid_get g2 (fst k) (snd k) = Inr 1" by (simp add: border_walls_def)
  qed
  from g1 g2 b1 b2 show ?thesis
    by (intro that [of g1 g2]) (simp_all add: carve_room_def carve_link_def)
qed

lemma is_target_interior:
  "is_target self c d = Inr True \<Longrightarrow>
   interior (width self) (height self) (fst c + fst d, snd c + snd d)"
  by (auto simp: is_target_def interior_def Let_def split: if_splits)

lemma is_target_total:
  assumes "rect (width self) (height self) (grid self)"
  shows "\<exists>b. is_target self c d = Inr b"
proof (cases "interior (width self) (height self) (fst c + fst d, snd c + snd d)")
  case True
  then have "grid_get (grid self) (fst c + fst d) (snd c + snd d)
      = Inr (grid self ! nat (snd c + snd d) ! nat (fst c + fst d))"
    by (intro grid_get_rect [OF assms]) (auto simp: interior_def)
  with True show ?thesis by (simp add: is_target_def Let_def interior_def)
next
  case False
  then have "is_target self c d = Inr False"
    by (auto simp: is_target_def interior_def Let_def)
  then show ?thesis by blast
qed

lemma scan_dirs_ok:
  assumes "width self = w" "height self = h" "rect w h (grid self)"
    "border_walls w h (grid self)" "interior w h c"
  shows "scan_dirs self c ds = Inr None \<or>
    (\<exists>self' n. scan_dirs self c ds = Inr (Some (self', n)) \<and> width self' = w \<and>
       height self' = h \<and> directions self' = directions self \<and> rect w h (grid self') \<and>
       border_walls w h (grid self') \<and> interior w h n)"
proof (induction ds)
  case Nil
  then show ?case by simp
next
  case (Cons d ds)
  from is_target_total [of self c d] assms obtain b where b: "is_target self c d = Inr b"
    by auto
  show ?case
  proof (cases b)
    case True
    with b assms have n: "interior w h (fst c + fst d, snd c + snd d)"
      by (auto dest: is_target_interior)
    from assms(3,4,5) n obtain g1 g2 where "carve_room (grid self) c d = Inr g1"
      "carve_link g1 c d = Inr g2" "rect w h g2" "border_walls w h g2"
      by (rule carve_ok)
    with b True n assms show ?thesis by (simp add: carve_def)
  next
    case False
    with b Cons.IH show ?thesis by simp
  qed
qed

lemma gen_step_ok:
  assumes "gen_ok w h st" "stack st \<noteq> []"
  shows "\<exists>st'. gen_step shuffle animate st = Inr st' \<and> gen_ok w h st'"
proof -
  obtain ds r where sh: "shuffle (rng st) (directions (gen st)) = (ds, r)"
    by (cases "shuffle (rng st) (directions (gen st))")
  let ?self = "(gen st)\<lparr>directions := ds\<rparr>"
  from assms have c: "interior w h (last (stack st))" by (simp add: gen_ok_def)
  from assms have bl: "\<forall>k \<in> set (butlast (stack st)). interior w h k"
    by (auto simp: gen_ok_def dest: in_set_butlastD)
  from assms(1) have "width ?self = w" "height ?self = h" "rect w h (grid ?self)"
    "border_walls w h (grid ?self)"
    by (simp_all add: gen_ok_def)
  from scan_dirs_ok [OF this c, of ds] assms(1) sh bl show ?thesis
    by (auto simp: gen_step_def gen_ok_def)
qed

lemma generate_init_ok:
  assumes "3 \<le> w" "3 \<le> h"
  shows "\<exists>st. generate_init (MazeGenerator w h) seed = Inr st \<and> gen_ok w h st"
proof -
  let ?g = "grid (MazeGenerator w h)"
  from assms have r: "0 \<le> (1::int)" "1 < w" "0 \<le> (1::int)" "1 < h" by simp_all
  obtain g' where g': "grid_set ?g 1 1 0 = Inr g'" "rect w h g'"
    "\<forall>x' y'. 0 \<le> x' \<longrightarrow> 0 \<le> y' \<longrightarrow>
       grid_get g' x' y' = (if x' = 1 \<and> y' = 1 then Inr 0 else grid_get ?g x' y')"
    using grid_set_cases [OF rect_MazeGenerator r, where v = 0] by blast
  have "border_walls w h g'"
    unfolding border_walls_def
  proof (intro allI impI)
    fix k assume k: "on_border w h k"
    with assms have "\<not> (fst k = 1 \<and> snd k = 1)" by (auto simp: on_border_def)
    with k show "grid_get g' (fst k) (snd k) = Inr 1"
      by (simp add: g'(3) on_border_def grid_get_MazeGenerator)
  qed
  with g' assms show ?thesis
    by (simp add: generate_init_def gen_ok_def interior_def) (simp add: MazeGenerator_def)
qed

lemma gen_iter_ok:
  "gen_ok w h st \<Longrightarrow> \<exists>st'. gen_iter shuffle animate n st = Inr st' \<and> gen_ok w h st'"
proof (induction n arbitrary: st)
  case 0
  then show ?case by simp
next
  case (Suc n)
  show ?case
  proof (cases "stack st = []")
    case True
    with Suc.prems show ?thesis by simp
  next
    case False
    from gen_step_ok [OF Suc.prems False] obtain st1
      where "gen_step shuffle animate st = Inr st1" "gen_ok w h st1" by blast
    with False Suc.IH [of st1] show ?thesis by simp
  qed
qed

lemma generate_loop_ok:
  "gen_ok w h st \<Longrightarrow>
   \<exists>st'. generate_loop shuffle animate st = Inr st' \<and> gen_ok w h st' \<and> stack st' = []"
proof (induction shuffle animate st rule: generate_loop.induct)
  case (1 shuffle animate st)
  show ?case
  proof (cases "stack st = []")
    case True
    with "1.prems" show ?thesis by (simp add: generate_loop.simps [of shuffle animate st])
  next
    case False
    from gen_step_ok [OF "1.prems" False] obtain st1
      where st1: "gen_step shuffle animate st = Inr st1" "gen_ok w h st1" by blast
    from "1.IH" [OF False st1] False st1 show ?thesis
      by (simp add: generate_loop.simps [of shuffle animate st])
  qed
qed

section \<open>Properties of the generator\<close>

text \<open>
  C6. For all \<open>width, height \<ge> 3\<close>, any shuffle and any seed, the border of the grid
  is all walls at every loop head of \<open>generate\<close> (before any iteration, after each
  of them, and in the result). No carve opens a border cell: at a loop head, for any
  direction that passes the test of lines 50 and 51 (which does not read
  \<open>self.directions\<close>), the grid has a closed border after the assignment of line 52
  and after the one of line 53.
\<close>

lemma carve_at_head_ok:
  assumes st: "gen_ok w h st" and ne: "stack st \<noteq> []"
    and t: "is_target (gen st) (last (stack st)) d = Inr True"
  shows "\<exists>g1 g2. carve_room (grid (gen st)) (last (stack st)) d = Inr g1 \<and>
             border_walls w h g1 \<and>
             carve_link g1 (last (stack st)) d = Inr g2 \<and> border_walls w h g2"
proof -
  from st ne have c: "interior w h (last (stack st))"
    by (simp add: gen_ok_def)
  from is_target_interior [OF t] st
  have n: "interior w h (fst (last (stack st)) + fst d, snd (last (stack st)) + snd d)"
    by (simp add: gen_ok_def)
  from st have r: "rect w h (grid (gen st))" and b: "border_walls w h (grid (gen st))"
    by (simp_all add: gen_ok_def)
  show ?thesis
  proof (rule carve_ok [OF r b c n])
    fix g1 g2
    assume "carve_room (grid (gen st)) (last (stack st)) d = Inr g1"
      "border_walls w h g1" "carve_link g1 (last (stack st)) d = Inr g2"
      "border_walls w h g2"
    then show ?thesis by (intro exI conjI)
  qed
qed

definition head_ok :: "int \<Rightarrow> int \<Rightarrow> 'r gen_state \<Rightarrow> bool" where
  "head_ok w h st \<longleftrightarrow>
     border_walls w h (grid (gen st)) \<and>
     (\<forall>d. stack st \<noteq> [] \<and> is_target (gen st) (last (stack st)) d = Inr True \<longrightarrow>
        (\<exists>g1 g2. carve_room (grid (gen st)) (last (stack st)) d = Inr g1 \<and>
           border_walls w h g1 \<and>
           carve_link g1 (last (stack st)) d = Inr g2 \<and> border_walls w h g2))"

lemma gen_ok_head_ok: "gen_ok w h st \<Longrightarrow> head_ok w h st"
  unfolding head_ok_def
proof (intro conjI allI impI)
  assume "gen_ok w h st"
  then show "border_walls w h (grid (gen st))" by (simp add: gen_ok_def)
next
  fix d
  assume "gen_ok w h st"
    "stack st \<noteq> [] \<and> is_target (gen st) (last (stack st)) d = Inr True"
  then show "\<exists>g1 g2. carve_room (grid (gen st)) (last (stack st)) d = Inr g1 \<and>
           border_walls w h g1 \<and>
           carve_link g1 (last (stack st)) d = Inr g2 \<and> border_walls w h g2"
    by (intro carve_at_head_ok) simp_all
qed

theorem border_invariant:
  assumes "3 \<le> w" "3 \<le> h"
  shows "\<exists>st0. generate_init (MazeGenerator w h) seed = Inr st0 \<and>
    (\<forall>n. \<exists>st. gen_iter shuffle animate n st0 = Inr st \<and> head_ok w h st) \<and>
    (\<exists>st'. generate shuffle animate (MazeGenerator w h) seed = Inr st' \<and>
       border_walls w h (grid (gen st')))"
proof -
  from generate_init_ok [OF assms, of seed] obtain st0
    where st0: "generate_init (MazeGenerator w h) seed = Inr st0" "gen_ok w h st0"
    by blast
  have iter: "\<forall>n. \<exists>st. gen_iter shuffle animate n st0 = Inr st \<and> head_ok w h st"
  proof
    fix n
    from gen_iter_ok [OF st0(2), of shuffle animate n] obtain st
      where "gen_iter shuffle animate n st0 = Inr st" "gen_ok w h st"
      by blast
    then have "gen_iter shuffle animate n st0 = Inr st \<and> head_ok w h st"
      by (simp add: gen_ok_head_ok)
    then show "\<exists>st. gen_iter shuffle animate n st0 = Inr st \<and> head_ok w h st" ..
  qed
  from generate_loop_ok [OF st0(2), of shuffle animate] obtain st'
    where "generate_loop shuffle animate st0 = Inr st'" "gen_ok w h st'"
    by blast
  with st0(1) have "generate shuffle animate (MazeGenerator w h) seed = Inr st' \<and>
       border_walls w h (grid (gen st'))"
    by (simp add: generate_def gen_ok_def)
  then have fin: "\<exists>st'. generate shuffle animate (MazeGenerator w h) seed = Inr st' \<and>
       border_walls w h (grid (gen st'))" ..
  from st0(1) iter fin
  have "generate_init (MazeGenerator w h) seed = Inr st0 \<and>
    (\<forall>n. \<exists>st. gen_iter shuffle animate n st0 = Inr st \<and> head_ok w h st) \<and>
    (\<exists>st'. generate shuffle animate (MazeGenerator w h) seed = Inr st' \<and>
       border_walls w h (grid (gen st')))"
    by simp
  then show ?thesis ..
qed

theorem border_invariant_witness:
  "(3::int) \<le> 5 \<and> (3::int) \<le> 4 \<and>
   (\<exists>st0. generate_init (MazeGenerator 5 4) (0::nat) = Inr st0 \<and>
    (\<forall>n. \<exists>st. gen_iter (\<lambda>r ds. (rotate (r mod 4) ds, Suc r)) True n st0 = Inr st \<and>
       head_ok 5 4 st) \<and>
    (\<exists>st'. generate (\<lambda>r ds. (rotate (r mod 4) ds, Suc r)) True (MazeGenerator 5 4) 0 = Inr st' \<and>
       border_walls 5 4 (grid (gen st'))))"
proof (intro conjI)
  show "(3::int) \<le> 5" and "(3::int) \<le> 4"
    by simp_all
  then show "\<exists>st0. generate_init (MazeGenerator 5 4) (0::nat) = Inr st0 \<and>
    (\<forall>n. \<exists>st. gen_iter (\<lambda>r ds. (rotate (r mod 4) ds, Suc r)) True n st0 = Inr st \<and>
       head_ok 5 4 st) \<and>
    (\<exists>st'. generate (\<lambda>r ds. (rotate (r mod 4) ds, Suc r)) True (MazeGenerator 5 4) 0 = Inr st' \<and>
       border_walls 5 4 (grid (gen st')))"
    by (rule border_invariant)
qed

text \<open>
  C7. For all \<open>width, height \<ge> 3\<close>, any shuffle and any seed, \<open>generate\<close> returns: no
  exception is raised, and the loop exits with an empty stack, having yielded the
  finite list of events of the final state.
\<close>

theorem generate_terminates:
  assumes "3 \<le> w" "3 \<le> h"
  shows "\<exists>st. generate shuffle animate (MazeGenerator w h) seed = Inr st \<and> stack st = []"
proof -
  from generate_init_ok [OF assms, of seed] obtain st0
    where "generate_init (MazeGenerator w h) seed = Inr st0" "gen_ok w h st0"
    by blast
  moreover from this(2) generate_loop_ok [of w h st0 shuffle animate] obtain st
    where "generate_loop shuffle animate st0 = Inr st" "stack st = []"
    by blast
  ultimately have "generate shuffle animate (MazeGenerator w h) seed = Inr st \<and> stack st = []"
    by (simp add: generate_def)
  then show ?thesis ..
qed

theorem generate_terminates_witness:
  "(3::int) \<le> 3 \<and> (3::int) \<le> 6 \<and>
   (\<exists>st. generate (\<lambda>r ds. (rotate (r mod 4) ds, Suc r)) True (MazeGenerator 3 6) (7::nat) = Inr st \<and>
      stack st = [])"
proof (intro conjI)
  show "(3::int) \<le> 3" and "(3::int) \<le> 6"
    by simp_all
  then show "\<exists>st. generate (\<lambda>r ds. (rotate (r mod 4) ds, Suc r)) True (MazeGenerator 3 6) (7::nat)
      = Inr st \<and> stack st = []"
    by (rule generate_terminates)
qed

subsection \<open>Runs that see the same shuffles\<close>








section \<open>heapq\<close>

text \<open>
  The frontier is a Python list kept as a binary heap by \<open>heapq\<close>. Its functions
  are modelled as the library implements them, comparing items with \<open><\<close> only
  (for the tuples of the frontier: lexicographically).
\<close>

text \<open>
  \<open>_siftdown(heap, startpos, pos)\<close>: the loop carries \<open>newitem\<close>, moves parents down
  while they are greater, and stores \<open>newitem\<close> at the position reached.
\<close>

function siftdown_loop :: "'a::linorder list \<Rightarrow> nat \<Rightarrow> nat \<Rightarrow> 'a \<Rightarrow> 'a list" where
  "siftdown_loop heap startpos pos newitem =
     (if pos > startpos
      then (let parentpos = (pos - 1) div 2; parent = heap ! parentpos
            in if newitem < parent
               then siftdown_loop (heap[pos := parent]) startpos parentpos newitem
               else heap[pos := newitem])
      else heap[pos := newitem])"
  by pat_completeness auto
termination
  by (relation "measure (\<lambda>(heap, startpos, pos, newitem). pos)") auto

declare siftdown_loop.simps [simp del]

definition siftdown :: "'a::linorder list \<Rightarrow> nat \<Rightarrow> nat \<Rightarrow> 'a list" where
  "siftdown heap startpos pos = siftdown_loop heap startpos pos (heap ! pos)"

text \<open>
  The loop of \<open>_siftup(heap, pos)\<close>: the smaller child moves up until a leaf is
  reached; the result is the list and the position of that leaf.
\<close>

function siftup_loop :: "'a::linorder list \<Rightarrow> nat \<Rightarrow> 'a list \<times> nat" where
  "siftup_loop heap pos =
     (let childpos = 2 * pos + 1
      in if childpos < length heap
         then (let rightpos = childpos + 1;
                   childpos' = (if rightpos < length heap \<and> \<not> heap ! childpos < heap ! rightpos
                                then rightpos else childpos)
               in siftup_loop (heap[pos := heap ! childpos']) childpos')
         else (heap, pos))"
  by pat_completeness auto
termination
  by (relation "measure (\<lambda>(heap, pos). length heap - pos)") (auto simp: Let_def)

declare siftup_loop.simps [simp del]

definition siftup :: "'a::linorder list \<Rightarrow> nat \<Rightarrow> 'a list" where
  "siftup heap pos =
     (let newitem = heap ! pos; (heap', pos') = siftup_loop heap pos
      in siftdown (heap'[pos' := newitem]) pos pos')"

definition heappush :: "'a::linorder list \<Rightarrow> 'a \<Rightarrow> 'a list" where
  "heappush heap item = siftdown (heap @ [item]) 0 (length heap)"

text \<open>\<open>heappop\<close> returns the item and the list left; on an empty list \<open>pop\<close> raises.\<close>

definition heappop :: "'a::linorder list \<Rightarrow> py_error + 'a \<times> 'a list" where
  "heappop heap =
     (if heap = [] then Inl IndexError
      else (let lastelt = last heap; heap' = butlast heap
            in if heap' \<noteq> [] then Inr (heap' ! 0, siftup (heap'[0 := lastelt]) 0)
               else Inr (lastelt, heap')))"


subsection \<open>The heap invariant\<close>

definition is_heap :: "'a::linorder list \<Rightarrow> bool" where
  "is_heap h \<longleftrightarrow> (\<forall>i < length h. 0 < i \<longrightarrow> h ! ((i - 1) div 2) \<le> h ! i)"

text \<open>
  A heap with a hole at \<open>pos\<close>: the order holds between every item and its parent
  where neither is the hole, and between the parent of the hole and its children.
\<close>

definition hole_inv :: "'a::linorder list \<Rightarrow> nat \<Rightarrow> bool" where
  "hole_inv h pos \<longleftrightarrow>
     pos < length h \<and>
     (\<forall>i < length h. 0 < i \<and> i \<noteq> pos \<and> (i - 1) div 2 \<noteq> pos \<longrightarrow> h ! ((i - 1) div 2) \<le> h ! i) \<and>
     (\<forall>c < length h. 0 < c \<and> (c - 1) div 2 = pos \<and> 0 < pos \<longrightarrow> h ! ((pos - 1) div 2) \<le> h ! c)"

lemma parent_less: "0 < (i::nat) \<Longrightarrow> (i - 1) div 2 < i"
  by arith

lemma parent_neq: "0 < (i::nat) \<Longrightarrow> (i - 1) div 2 \<noteq> i" "0 < (i::nat) \<Longrightarrow> i \<noteq> (i - 1) div 2"
  by arith+

lemma hole_inv_update:
  assumes "hole_inv h pos"
  shows "hole_inv (h[pos := x]) pos"
  unfolding hole_inv_def
proof (intro conjI allI impI)
  from assms show "pos < length (h[pos := x])" by (simp add: hole_inv_def)
next
  fix i assume "i < length (h[pos := x])" "0 < i \<and> i \<noteq> pos \<and> (i - 1) div 2 \<noteq> pos"
  with assms show "h[pos := x] ! ((i - 1) div 2) \<le> h[pos := x] ! i"
    by (simp add: hole_inv_def)
next
  fix c assume c: "c < length (h[pos := x])" "0 < c \<and> (c - 1) div 2 = pos \<and> 0 < pos"
  with parent_neq [of c] parent_neq [of pos] have "c \<noteq> pos" "(pos - 1) div 2 \<noteq> pos"
    by auto
  with c assms show "h[pos := x] ! ((pos - 1) div 2) \<le> h[pos := x] ! c"
    by (simp add: hole_inv_def)
qed

lemma siftdown_loop_heap:
  assumes "hole_inv h pos" "\<forall>c < length h. 0 < c \<and> (c - 1) div 2 = pos \<longrightarrow> x \<le> h ! c"
  shows "is_heap (siftdown_loop h 0 pos x)"
  using assms
proof (induction pos arbitrary: h rule: less_induct)
  case (less pos)
  let ?pp = "(pos - 1) div 2"
  from less.prems(1) have pos: "pos < length h"
    and c1: "\<And>i. i < length h \<Longrightarrow> 0 < i \<Longrightarrow> i \<noteq> pos \<Longrightarrow> (i - 1) div 2 \<noteq> pos
        \<Longrightarrow> h ! ((i - 1) div 2) \<le> h ! i"
    and c2: "\<And>c. c < length h \<Longrightarrow> 0 < c \<Longrightarrow> (c - 1) div 2 = pos \<Longrightarrow> 0 < pos
        \<Longrightarrow> h ! ?pp \<le> h ! c"
    by (auto simp: hole_inv_def)
  from less.prems(2) have c3: "\<And>c. c < length h \<Longrightarrow> 0 < c \<Longrightarrow> (c - 1) div 2 = pos \<Longrightarrow> x \<le> h ! c"
    by auto
  show ?case
  proof (cases "0 < pos \<and> x < h ! ?pp")
    case True
    let ?h = "h[pos := h ! ?pp]"
    from True parent_less [of pos] have pp: "?pp < pos" by blast
    have 1: "hole_inv ?h ?pp"
      unfolding hole_inv_def
    proof (intro conjI allI impI)
      from pp pos show "?pp < length ?h" by simp
    next
      fix i assume i: "i < length ?h" "0 < i \<and> i \<noteq> ?pp \<and> (i - 1) div 2 \<noteq> ?pp"
      then have ip: "i \<noteq> pos" by auto
      show "?h ! ((i - 1) div 2) \<le> ?h ! i"
      proof (cases "(i - 1) div 2 = pos")
        case True
        with i ip pos c2 [of i] \<open>0 < pos \<and> x < h ! ?pp\<close> show ?thesis by simp
      next
        case False
        with i ip c1 [of i] show ?thesis by simp
      qed
    next
      fix c assume c: "c < length ?h" "0 < c \<and> (c - 1) div 2 = ?pp \<and> 0 < ?pp"
      from pp have ne: "(?pp - 1) div 2 \<noteq> pos"
        using parent_less [of ?pp] c(2) by simp
      from c pp pos c1 [of ?pp] ne have le: "h ! ((?pp - 1) div 2) \<le> h ! ?pp" by simp
      show "?h ! ((?pp - 1) div 2) \<le> ?h ! c"
      proof (cases "c = pos")
        case True
        with ne pos le show ?thesis by simp
      next
        case False
        with c pp c1 [of c] have "h ! ?pp \<le> h ! c" by simp
        with le False ne show ?thesis by simp
      qed
    qed
    have 2: "\<forall>c < length ?h. 0 < c \<and> (c - 1) div 2 = ?pp \<longrightarrow> x \<le> ?h ! c"
    proof (intro allI impI)
      fix c assume c: "c < length ?h" "0 < c \<and> (c - 1) div 2 = ?pp"
      show "x \<le> ?h ! c"
      proof (cases "c = pos")
        case True
        with pos \<open>0 < pos \<and> x < h ! ?pp\<close> show ?thesis by (simp add: less_imp_le)
      next
        case False
        with c pp c1 [of c] have "h ! ?pp \<le> h ! c" by simp
        with \<open>0 < pos \<and> x < h ! ?pp\<close> have "x < h ! c" by (blast intro: less_le_trans)
        with False show ?thesis by (simp add: less_imp_le)
      qed
    qed
    from less.IH [OF pp 1 2] True show ?thesis
      by (simp add: siftdown_loop.simps [of h 0 pos x] Let_def)
  next
    case False
    then have eq: "siftdown_loop h 0 pos x = h[pos := x]"
      by (auto simp: siftdown_loop.simps [of h 0 pos x] Let_def)
    have "is_heap (h[pos := x])"
      unfolding is_heap_def
    proof (intro allI impI)
      fix i assume i: "i < length (h[pos := x])" "0 < i"
      show "h[pos := x] ! ((i - 1) div 2) \<le> h[pos := x] ! i"
      proof (cases "i = pos")
        case True
        with i False pos parent_less [of pos] show ?thesis by (auto simp: not_less)
      next
        case ip: False
        show ?thesis
        proof (cases "(i - 1) div 2 = pos")
          case True
          with i ip pos c3 [of i] show ?thesis by simp
        next
          case False
          with i ip c1 [of i] show ?thesis by simp
        qed
      qed
    qed
    with eq show ?thesis by simp
  qed
qed


lemma siftdown_loop_length [simp]: "length (siftdown_loop h s pos x) = length h"
  by (induction h s pos x rule: siftdown_loop.induct)
    (subst siftdown_loop.simps, simp add: Let_def)

lemma mset_update_swap:
  assumes "i < length h" "j < length h" "i \<noteq> j"
  shows "mset (h[i := h ! j, j := x]) = mset (h[i := x])"
proof -
  from assms have "mset (h[i := h ! j, j := x])
      = add_mset x (add_mset (h ! j) (mset h - {#h ! i#}) - {#h ! j#})"
    by (simp add: mset_update)
  also have "\<dots> = add_mset x (mset h - {#h ! i#})"
    by simp
  also from assms have "\<dots> = mset (h[i := x])"
    by (simp add: mset_update)
  finally show ?thesis .
qed

lemma siftdown_loop_mset:
  "pos < length h \<Longrightarrow> mset (siftdown_loop h s pos x) = mset (h[pos := x])"
proof (induction h s pos x rule: siftdown_loop.induct)
  case (1 heap startpos pos newitem)
  let ?pp = "(pos - 1) div 2"
  show ?case
  proof (cases "pos > startpos \<and> newitem < heap ! ?pp")
    case True
    then have pp: "?pp < pos" using parent_less [of pos] by auto
    with "1.prems" have "?pp < length (heap[pos := heap ! ?pp])" by simp
    with "1.IH" [OF _ refl refl] True
    have "mset (siftdown_loop (heap[pos := heap ! ?pp]) startpos ?pp newitem)
        = mset (heap[pos := heap ! ?pp, ?pp := newitem])"
      by simp
    also from pp "1.prems" have "\<dots> = mset (heap[pos := newitem])"
      by (intro mset_update_swap) simp_all
    finally show ?thesis using True
      by (simp add: siftdown_loop.simps [of heap startpos pos newitem] Let_def)
  next
    case False
    then show ?thesis
      by (auto simp: siftdown_loop.simps [of heap startpos pos newitem] Let_def)
  qed
qed

lemma is_heap_hole_last:
  assumes "is_heap h"
  shows "hole_inv (h @ [x]) (length h)"
  unfolding hole_inv_def
proof (intro conjI allI impI)
  show "length h < length (h @ [x])" by simp
next
  fix i assume "i < length (h @ [x])"
    "0 < i \<and> i \<noteq> length h \<and> (i - 1) div 2 \<noteq> length h"
  then have i: "i < length h" "0 < i" by auto
  with parent_less [of i] have "(i - 1) div 2 < length h" by simp
  with i assms show "(h @ [x]) ! ((i - 1) div 2) \<le> (h @ [x]) ! i"
    by (simp add: nth_append is_heap_def)
next
  fix c assume "c < length (h @ [x])" "0 < c \<and> (c - 1) div 2 = length h \<and> 0 < length h"
  then have False by simp arith
  then show "(h @ [x]) ! ((length h - 1) div 2) \<le> (h @ [x]) ! c" ..
qed

lemma heappush_heap: "is_heap h \<Longrightarrow> is_heap (heappush h x)"
proof -
  assume "is_heap h"
  then have "hole_inv (h @ [x]) (length h)" by (rule is_heap_hole_last)
  moreover have "\<forall>c < length (h @ [x]). 0 < c \<and> (c - 1) div 2 = length h \<longrightarrow> x \<le> (h @ [x]) ! c"
    by (auto simp: nth_append)
  ultimately show ?thesis
    unfolding heappush_def siftdown_def by (simp add: siftdown_loop_heap)
qed

lemma heappush_mset: "mset (heappush h x) = add_mset x (mset h)"
  by (simp add: heappush_def siftdown_def siftdown_loop_mset)

lemma heap_min:
  assumes "is_heap h" "i < length h"
  shows "h ! 0 \<le> h ! i"
  using assms(2)
proof (induction i rule: less_induct)
  case (less i)
  show ?case
  proof (cases "i = 0")
    case True
    then show ?thesis by simp
  next
    case False
    then have p: "(i - 1) div 2 < i" by (simp add: parent_less)
    with less.prems have "h ! 0 \<le> h ! ((i - 1) div 2)" by (intro less.IH) simp_all
    also from assms(1) less.prems False have "\<dots> \<le> h ! i" by (simp add: is_heap_def)
    finally show ?thesis .
  qed
qed


lemma parent_eq_iff: "0 < (i::nat) \<Longrightarrow> (i - 1) div 2 = p \<longleftrightarrow> i = 2 * p + 1 \<or> i = 2 * p + 2"
  by arith

lemma hole_inv_child:
  assumes inv: "hole_inv h pos" and c: "c < length h" "0 < c" "(c - 1) div 2 = pos"
    and least: "\<And>s. s < length h \<Longrightarrow> 0 < s \<Longrightarrow> (s - 1) div 2 = pos \<Longrightarrow> h ! c \<le> h ! s"
  shows "hole_inv (h[pos := h ! c]) c"
  unfolding hole_inv_def
proof (intro conjI allI impI)
  from c show "c < length (h[pos := h ! c])" by simp
next
  from c parent_neq [of c] have cp: "c \<noteq> pos" by auto
  fix i assume i: "i < length (h[pos := h ! c])" "0 < i \<and> i \<noteq> c \<and> (i - 1) div 2 \<noteq> c"
  show "h[pos := h ! c] ! ((i - 1) div 2) \<le> h[pos := h ! c] ! i"
  proof (cases "i = pos")
    case True
    with i parent_neq [of pos] have "(pos - 1) div 2 \<noteq> pos" by simp
    moreover from inv c True i have "h ! ((pos - 1) div 2) \<le> h ! c"
      by (simp add: hole_inv_def)
    ultimately show ?thesis using True inv by (simp add: hole_inv_def)
  next
    case ip: False
    show ?thesis
    proof (cases "(i - 1) div 2 = pos")
      case True
      with i ip inv least [of i] show ?thesis by (simp add: hole_inv_def)
    next
      case False
      with i ip inv show ?thesis by (simp add: hole_inv_def)
    qed
  qed
next
  fix d assume d: "d < length (h[pos := h ! c])" "0 < d \<and> (d - 1) div 2 = c \<and> 0 < c"
  from c parent_neq [of c] have cp: "c \<noteq> pos" by auto
  from d c parent_less [of d] parent_less [of c] have dp: "d \<noteq> pos" by auto
  from inv have "\<And>i. i < length h \<Longrightarrow> 0 < i \<Longrightarrow> i \<noteq> pos \<Longrightarrow> (i - 1) div 2 \<noteq> pos
        \<Longrightarrow> h ! ((i - 1) div 2) \<le> h ! i"
    by (auto simp: hole_inv_def)
  from this [of d] d dp cp have "h ! ((d - 1) div 2) \<le> h ! d"
    by simp
  with d c dp inv show "h[pos := h ! c] ! ((c - 1) div 2) \<le> h[pos := h ! c] ! d"
    by (simp add: hole_inv_def)
qed

lemma siftup_loop_props:
  assumes "hole_inv h pos"
  shows "case siftup_loop h pos of (h', p') \<Rightarrow>
    hole_inv h' p' \<and> length h' = length h \<and> \<not> 2 * p' + 1 < length h' \<and>
    (\<forall>x. mset (h'[p' := x]) = mset (h[pos := x]))"
  using assms
proof (induction h pos rule: siftup_loop.induct)
  case (1 heap pos)
  show ?case
  proof (cases "2 * pos + 1 < length heap")
    case False
    with "1.prems" show ?thesis
      by (simp add: siftup_loop.simps [of heap pos])
  next
    case True
    define c where "c = (if 2 * pos + 1 + 1 < length heap \<and>
          \<not> heap ! (2 * pos + 1) < heap ! (2 * pos + 1 + 1)
        then 2 * pos + 1 + 1 else 2 * pos + 1)"
    from True have c: "c < length heap" "0 < c" "(c - 1) div 2 = pos"
      by (auto simp: c_def)
    have least: "heap ! c \<le> heap ! s" if "s < length heap" "0 < s" "(s - 1) div 2 = pos" for s
    proof -
      from that parent_eq_iff [of s pos] have "s = 2 * pos + 1 \<or> s = 2 * pos + 2" by blast
      with that(1) show ?thesis by (auto simp: c_def not_less less_imp_le)
    qed
    from "1.prems" c least have inv: "hole_inv (heap[pos := heap ! c]) c"
      by (rule hole_inv_child)
    have eq: "siftup_loop heap pos = siftup_loop (heap[pos := heap ! c]) c"
      by (subst siftup_loop.simps) (simp only: Let_def True if_True c_def)
    note "1.IH" [OF refl True refl refl, folded c_def, OF inv]
    then have IH: "case siftup_loop (heap[pos := heap ! c]) c of (h', p') \<Rightarrow>
      hole_inv h' p' \<and> length h' = length (heap[pos := heap ! c]) \<and> \<not> 2 * p' + 1 < length h' \<and>
      (\<forall>x. mset (h'[p' := x]) = mset (heap[pos := heap ! c, c := x]))" .
    from c parent_neq [of c] "1.prems" have "pos < length heap" "pos \<noteq> c"
      by (auto simp: hole_inv_def)
    with c have "mset (heap[pos := heap ! c, c := x]) = mset (heap[pos := x])" for x
      by (intro mset_update_swap) simp_all
    with IH eq show ?thesis by (simp split: prod.splits)
  qed
qed


lemma siftup_loop_length: "length (fst (siftup_loop h pos)) = length h"
proof (induction h pos rule: siftup_loop.induct)
  case (1 heap pos)
  show ?case
  proof (cases "2 * pos + 1 < length heap")
    case True
    define c where "c = (if 2 * pos + 1 + 1 < length heap \<and>
          \<not> heap ! (2 * pos + 1) < heap ! (2 * pos + 1 + 1)
        then 2 * pos + 1 + 1 else 2 * pos + 1)"
    have "siftup_loop heap pos = siftup_loop (heap[pos := heap ! c]) c"
      by (subst siftup_loop.simps) (simp only: Let_def True if_True c_def)
    with "1.IH" [OF refl True refl refl, folded c_def] show ?thesis by simp
  next
    case False
    then show ?thesis by (simp add: siftup_loop.simps [of heap pos])
  qed
qed

lemma butlast_empty_iff: "butlast h = [] \<longleftrightarrow> length h \<le> Suc 0"
proof -
  have "butlast h = [] \<longleftrightarrow> length (butlast h) = 0"
    by (simp only: length_0_conv)
  also have "\<dots> \<longleftrightarrow> length h \<le> Suc 0"
    by (simp only: length_butlast) arith
  finally show ?thesis .
qed

lemma heappop_length:
  "heappop h = Inr (x, h') \<Longrightarrow> length h' = length h - 1"
proof -
  assume pop: "heappop h = Inr (x, h')"
  then have ne: "h \<noteq> []" by (auto simp: heappop_def)
  show ?thesis
  proof (cases "butlast h = []")
    case True
    with pop ne show ?thesis by (auto simp: heappop_def butlast_empty_iff)
  next
    case False
    with pop ne have "h' = siftup ((butlast h)[0 := last h]) 0"
      by (simp add: heappop_def Let_def)
    with siftup_loop_length [of "(butlast h)[0 := last h]" 0] show ?thesis
      by (simp add: siftup_def siftdown_def Let_def split: prod.splits)
  qed
qed

lemma is_heap_butlast: "is_heap h \<Longrightarrow> is_heap (butlast h)"
  unfolding is_heap_def
proof (intro allI impI)
  fix i assume h: "\<forall>i<length h. 0 < i \<longrightarrow> h ! ((i - 1) div 2) \<le> h ! i"
    and i: "i < length (butlast h)" "0 < i"
  with parent_less [of i] have "(i - 1) div 2 < length (butlast h)" by simp
  with i h show "butlast h ! ((i - 1) div 2) \<le> butlast h ! i"
    by (simp add: nth_butlast)
qed

lemma is_heap_hole_root: "is_heap h \<Longrightarrow> h \<noteq> [] \<Longrightarrow> hole_inv h 0"
  by (simp add: is_heap_def hole_inv_def)

lemma siftup_heap:
  assumes "is_heap h" "h \<noteq> []"
  shows "is_heap (siftup (h[0 := x]) 0) \<and> mset (siftup (h[0 := x]) 0) = mset (h[0 := x])"
proof -
  obtain h' p' where sl: "siftup_loop (h[0 := x]) 0 = (h', p')"
    by (cases "siftup_loop (h[0 := x]) 0")
  from assms have "hole_inv (h[0 := x]) 0"
    by (intro hole_inv_update is_heap_hole_root)
  from siftup_loop_props [OF this] sl
  have inv: "hole_inv h' p'" and leaf: "\<not> 2 * p' + 1 < length h'"
    and ms: "\<And>y. mset (h'[p' := y]) = mset (h[0 := x, 0 := y])"
    by simp_all
  from inv have p': "p' < length h'" by (simp add: hole_inv_def)
  from assms(2) have x: "h[0 := x] ! 0 = x" by simp
  from p' x sl have eq: "siftup (h[0 := x]) 0 = siftdown_loop (h'[p' := x]) 0 p' x"
    by (simp add: siftup_def siftdown_def)
  have "\<forall>c < length (h'[p' := x]). 0 < c \<and> (c - 1) div 2 = p' \<longrightarrow> x \<le> h'[p' := x] ! c"
  proof (intro allI impI)
    fix c assume c: "c < length (h'[p' := x])" "0 < c \<and> (c - 1) div 2 = p'"
    with parent_eq_iff [of c p'] have "c = 2 * p' + 1 \<or> c = 2 * p' + 2" by blast
    with c(1) leaf have False by auto
    then show "x \<le> h'[p' := x] ! c" ..
  qed
  with hole_inv_update [OF inv, of x] have "is_heap (siftdown_loop (h'[p' := x]) 0 p' x)"
    by (rule siftdown_loop_heap)
  moreover from p' have "mset (siftdown_loop (h'[p' := x]) 0 p' x) = mset (h[0 := x])"
    by (simp add: siftdown_loop_mset ms)
  ultimately show ?thesis by (simp add: eq)
qed

lemma heappop_props:
  assumes "is_heap h" "h \<noteq> []"
  shows "\<exists>h'. heappop h = Inr (h ! 0, h') \<and> is_heap h' \<and> mset h = add_mset (h ! 0) (mset h')"
proof (cases "butlast h = []")
  case True
  with assms(2) have "h = [last h]"
    by (metis append_butlast_last_id append_Nil)
  then obtain x where "h = [x]" ..
  then show ?thesis by (simp add: heappop_def is_heap_def)
next
  case False
  let ?b = "butlast h" and ?l = "last h"
  from assms(2) have h: "h = ?b @ [?l]" by simp
  from False have len: "0 < length ?b" by (simp add: butlast_empty_iff)
  then have b0: "?b ! 0 = h ! 0" by (rule nth_butlast)
  from assms(1) have "is_heap ?b" by (rule is_heap_butlast)
  from siftup_heap [OF this False, of ?l]
  have hp: "is_heap (siftup (?b[0 := ?l]) 0)"
    and ms: "mset (siftup (?b[0 := ?l]) 0) = mset (?b[0 := ?l])"
    by simp_all
  from len have "mset (?b[0 := ?l]) = add_mset ?l (mset ?b - {#?b ! 0#})"
    by (rule mset_update)
  moreover from len have "?b ! 0 \<in># mset ?b" by (simp del: length_butlast)
  ultimately have "add_mset (?b ! 0) (mset (?b[0 := ?l])) = add_mset ?l (mset ?b)"
    by simp
  also have "\<dots> = mset h" by (subst (2) h) simp
  finally have "mset h = add_mset (h ! 0) (mset (siftup (?b[0 := ?l]) 0))"
    by (simp add: ms b0)
  with hp assms(2) False b0 show ?thesis
    by (simp add: heappop_def Let_def)
qed


section \<open>PathFinder\<close>

text \<open>\<open>heuristic\<close>: the Manhattan distance.\<close>

definition heuristic :: "cell \<Rightarrow> cell \<Rightarrow> int" where
  "heuristic a b = \<bar>fst a - fst b\<bar> + \<bar>snd a - snd b\<bar>"

text \<open>
  A frontier entry is the tuple \<open>(priority, cell)\<close>; Python compares tuples
  lexicographically, as the order on pairs does here. A snapshot is what
  \<open>astar\<close> yields: the visited set, the frontier list and the path or \<open>None\<close>.
\<close>

type_synonym entry = "int \<times> cell"
type_synonym snapshot = "cell set \<times> entry list \<times> cell list option"

text \<open>
  The variables of a run of \<open>astar\<close>: the grid passed in, the four collections, and
  the snapshots yielded so far. \<open>came_from\<close> maps the start to \<open>None\<close> and any other
  cell to its predecessor.
\<close>

record astar_state =
  sgrid :: grid_t
  frontier :: "entry list"
  came_from :: "cell \<rightharpoonup> cell option"
  cost_so_far :: "cell \<rightharpoonup> nat"
  visited :: "cell set"
  emitted :: "snapshot list"

definition astar_init :: "grid_t \<Rightarrow> cell \<Rightarrow> astar_state" where
  "astar_init g start =
     \<lparr>sgrid = g, frontier = heappush [] (0, start), came_from = [start \<mapsto> None],
      cost_so_far = [start \<mapsto> 0], visited = {}, emitted = []\<rparr>"

text \<open>
  Lines 89 and 90: \<open>0 <= nx < len(grid[0]) and 0 <= ny < len(grid)\<close>, then
  \<open>grid[ny][nx] == 0\<close>. The chained comparison reads \<open>grid[0]\<close> only when
  \<open>0 <= nx\<close> holds.
\<close>

definition passable :: "grid_t \<Rightarrow> int \<Rightarrow> int \<Rightarrow> py_error + bool" where
  "passable g nx ny =
     (if 0 \<le> nx
      then (case py_get g 0 of
              Inl e \<Rightarrow> Inl e
            | Inr row0 \<Rightarrow>
                if nx < int (length row0) \<and> 0 \<le> ny \<and> ny < int (length g)
                then (case grid_get g nx ny of Inl e \<Rightarrow> Inl e | Inr v \<Rightarrow> Inr (v = 0))
                else Inr False)
      else Inr False)"

text \<open>The body of the \<open>for\<close> loop of lines 87 to 97, for the direction \<open>d\<close>.\<close>

definition relax :: "cell \<Rightarrow> cell \<Rightarrow> int \<times> int \<Rightarrow> astar_state \<Rightarrow> py_error + astar_state" where
  "relax goal current d s =
     (let nx = fst current + fst d; ny = snd current + snd d
      in case passable (sgrid s) nx ny of
           Inl e \<Rightarrow> Inl e
         | Inr False \<Rightarrow> Inr s
         | Inr True \<Rightarrow>
             (case cost_so_far s current of
                None \<Rightarrow> Inl KeyError
              | Some c \<Rightarrow>
                  (let neighbor = (nx, ny); new_cost = c + 1
                   in if (case cost_so_far s neighbor of None \<Rightarrow> True | Some old \<Rightarrow> new_cost < old)
                      then Inr (s\<lparr>cost_so_far := (cost_so_far s)(neighbor \<mapsto> new_cost),
                                  frontier := heappush (frontier s)
                                    (int new_cost + heuristic goal neighbor, neighbor),
                                  came_from := (came_from s)(neighbor \<mapsto> Some current)\<rparr>)
                      else Inr s)))"

fun expand :: "cell \<Rightarrow> cell \<Rightarrow> (int \<times> int) list \<Rightarrow> astar_state \<Rightarrow> py_error + astar_state" where
  "expand goal current [] s = Inr s"
| "expand goal current (d # ds) s =
     (case relax goal current d s of Inl e \<Rightarrow> Inl e | Inr s' \<Rightarrow> expand goal current ds s')"

text \<open>
  One iteration of the \<open>while frontier\<close> loop: it leaves the loop by \<open>break\<close> when
  the popped cell is the goal, and otherwise expands the cell, marks it visited and
  (when \<open>visualize\<close> is set) yields a snapshot.
\<close>

datatype step = Break astar_state | Next astar_state

definition astar_step :: "cell \<Rightarrow> bool \<Rightarrow> astar_state \<Rightarrow> py_error + step" where
  "astar_step goal visualize s =
     (case heappop (frontier s) of
        Inl e \<Rightarrow> Inl e
      | Inr (item, fr) \<Rightarrow>
          (let current = snd item; s1 = s\<lparr>frontier := fr\<rparr>
           in if current = goal then Inr (Break s1)
              else (case expand goal current [(-1, 0), (1, 0), (0, -1), (0, 1)] s1 of
                      Inl e \<Rightarrow> Inl e
                    | Inr s2 \<Rightarrow>
                        (let vis = insert current (visited s2)
                         in Inr (Next (s2\<lparr>visited := vis,
                              emitted := emitted s2 @
                                (if visualize then [(vis, frontier s2, None)] else [])\<rparr>))))))"

subsection \<open>The search loop ends\<close>

text \<open>
  Only cells of the rectangle spanned by the first row and the number of rows pass
  the test of line 89. Each push either gives a cost to one more of them or lowers
  a cost, and each iteration pops one entry.
\<close>

definition cells_of :: "grid_t \<Rightarrow> cell set" where
  "cells_of g = {0 ..< (case g of [] \<Rightarrow> 0 | row0 # _ \<Rightarrow> int (length row0))} \<times> {0 ..< int (length g)}"

definition uncosted :: "astar_state \<Rightarrow> nat" where
  "uncosted s = card (cells_of (sgrid s) - dom (cost_so_far s))"

definition cost_sum :: "astar_state \<Rightarrow> nat" where
  "cost_sum s = (\<Sum>c \<in> cells_of (sgrid s). case cost_so_far s c of None \<Rightarrow> 0 | Some k \<Rightarrow> k)"

lemma finite_cells_of [simp]: "finite (cells_of g)"
  by (simp add: cells_of_def)

lemma passable_cells_of: "passable g x y = Inr True \<Longrightarrow> (x, y) \<in> cells_of g"
  by (cases g)
    (auto simp: passable_def cells_of_def py_get_def py_index_def split: if_splits sum.splits)

lemma relax_progress:
  assumes "relax goal current d s = Inr s'"
  shows "sgrid s' = sgrid s \<and>
    (s' = s \<or> uncosted s' < uncosted s \<or> uncosted s' = uncosted s \<and> cost_sum s' < cost_sum s)"
proof (cases "s' = s")
  case True
  then show ?thesis by simp
next
  case False
  let ?n = "(fst current + fst d, snd current + snd d)"
  from assms False obtain c where p: "passable (sgrid s) (fst ?n) (snd ?n) = Inr True"
    and c: "cost_so_far s current = Some c"
    and better: "case cost_so_far s ?n of None \<Rightarrow> True | Some old \<Rightarrow> c + 1 < old"
    and s': "s' = s\<lparr>cost_so_far := (cost_so_far s)(?n \<mapsto> c + 1),
        frontier := heappush (frontier s) (int (c + 1) + heuristic goal ?n, ?n),
        came_from := (came_from s)(?n \<mapsto> Some current)\<rparr>"
    by (auto simp: relax_def Let_def split: sum.splits bool.splits option.splits if_splits)
  from p have n: "?n \<in> cells_of (sgrid s)" by (simp add: passable_cells_of)
  show ?thesis
  proof (cases "cost_so_far s ?n")
    case None
    then have "cells_of (sgrid s) - dom (cost_so_far s') = (cells_of (sgrid s) - dom (cost_so_far s)) - {?n}"
      by (auto simp: s')
    moreover from None n have "?n \<in> cells_of (sgrid s) - dom (cost_so_far s)" by auto
    then have "card (cells_of (sgrid s) - dom (cost_so_far s) - {?n})
        < card (cells_of (sgrid s) - dom (cost_so_far s))"
      by (intro card_Diff1_less) simp_all
    ultimately have "uncosted s' < uncosted s"
      by (simp add: uncosted_def s')
    then show ?thesis by (simp add: s')
  next
    case (Some old)
    with better have lt: "c + 1 < old" by simp
    from Some have "dom (cost_so_far s') = dom (cost_so_far s)" by (auto simp: s')
    then have "uncosted s' = uncosted s" by (simp add: uncosted_def s')
    moreover have g: "sgrid s' = sgrid s" by (simp add: s')
    have "cost_sum s' < cost_sum s"
      unfolding cost_sum_def g
    proof (rule sum_strict_mono_ex1)
      show "finite (cells_of (sgrid s))" by simp
      show "\<forall>x \<in> cells_of (sgrid s). (case cost_so_far s' x of None \<Rightarrow> 0 | Some k \<Rightarrow> k)
          \<le> (case cost_so_far s x of None \<Rightarrow> 0 | Some k \<Rightarrow> k)"
        using lt Some by (auto simp: s')
      show "\<exists>a \<in> cells_of (sgrid s). (case cost_so_far s' a of None \<Rightarrow> 0 | Some k \<Rightarrow> k)
          < (case cost_so_far s a of None \<Rightarrow> 0 | Some k \<Rightarrow> k)"
        using lt Some n by (intro bexI [of _ ?n]) (auto simp: s')
    qed
    ultimately show ?thesis by (simp add: s')
  qed
qed

lemma expand_progress:
  "expand goal current ds s = Inr s' \<Longrightarrow>
   sgrid s' = sgrid s \<and>
   (uncosted s' = uncosted s \<and> cost_sum s' = cost_sum s \<and> length (frontier s') = length (frontier s)
    \<or> uncosted s' < uncosted s \<or> uncosted s' = uncosted s \<and> cost_sum s' < cost_sum s)"
proof (induction ds arbitrary: s)
  case Nil
  then show ?case by simp
next
  case (Cons d ds)
  from Cons.prems obtain s1 where r: "relax goal current d s = Inr s1"
    and e: "expand goal current ds s1 = Inr s'"
    by (auto split: sum.splits)
  from relax_progress [OF r] Cons.IH [OF e] show ?case
    by (elim conjE disjE) simp_all
qed

lemma astar_step_decreases:
  assumes "astar_step goal visualize s = Inr (Next s')"
  shows "uncosted s' < uncosted s \<or>
    uncosted s' = uncosted s \<and>
      (cost_sum s' < cost_sum s \<or>
       cost_sum s' = cost_sum s \<and> length (frontier s') < length (frontier s))"
proof -
  from assms obtain item fr s2 where pop: "heappop (frontier s) = Inr (item, fr)"
    and ex: "expand goal (snd item) [(-1, 0), (1, 0), (0, -1), (0, 1)] (s\<lparr>frontier := fr\<rparr>) = Inr s2"
    and s': "s' = s2\<lparr>visited := insert (snd item) (visited s2),
        emitted := emitted s2 @
          (if visualize then [(insert (snd item) (visited s2), frontier s2, None)] else [])\<rparr>"
    by (auto simp: astar_step_def Let_def split: sum.splits prod.splits if_splits)
  from pop have "frontier s \<noteq> []" by (auto simp: heappop_def)
  with heappop_length [OF pop] have "length fr < length (frontier s)" by simp
  with expand_progress [OF ex] show ?thesis
    by (auto simp: s' uncosted_def cost_sum_def)
qed

text \<open>
  The \<open>while frontier\<close> loop. An exception leaves it with the snapshots yielded
  before.
\<close>

function search_loop :: "cell \<Rightarrow> bool \<Rightarrow> astar_state \<Rightarrow> py_error \<times> snapshot list + astar_state" where
  "search_loop goal visualize s =
     (if frontier s = [] then Inr s
      else (case astar_step goal visualize s of
              Inl e \<Rightarrow> Inl (e, emitted s)
            | Inr (Break s') \<Rightarrow> Inr s'
            | Inr (Next s') \<Rightarrow> search_loop goal visualize s'))"
  by pat_completeness auto
termination
proof (relation "inv_image (less_than <*lex*> less_than <*lex*> less_than)
    (\<lambda>(goal, visualize, s). (uncosted s, cost_sum s, length (frontier s)))")
  show "wf (inv_image (less_than <*lex*> less_than <*lex*> less_than)
    (\<lambda>(goal :: cell, visualize :: bool, s). (uncosted s, cost_sum s, length (frontier s))))"
    by (intro wf_inv_image wf_lex_prod wf_less_than)
next
  fix goal visualize s r s'
  assume "frontier s \<noteq> []" "astar_step goal visualize s = Inr r" "r = Next s'"
  then have "astar_step goal visualize s = Inr (Next s')" by simp
  from astar_step_decreases [OF this]
  show "((goal, visualize, s'), (goal, visualize, s))
    \<in> inv_image (less_than <*lex*> less_than <*lex*> less_than)
       (\<lambda>(goal, visualize, s). (uncosted s, cost_sum s, length (frontier s)))"
    by auto
qed

declare search_loop.simps [simp del]


subsection \<open>Reconstruction of the path\<close>

text \<open>\<open>came_from.get(current)\<close>: \<open>None\<close> for a missing key and for the start.\<close>

definition dict_get :: "('k \<rightharpoonup> 'v option) \<Rightarrow> 'k \<Rightarrow> 'v option" where
  "dict_get m k = (case m k of None \<Rightarrow> None | Some v \<Rightarrow> v)"

text \<open>
  The loop of lines 106 to 113, from the values of \<open>current\<close> and \<open>path\<close> at its head;
  it returns \<open>path\<close> as the loop leaves it (emptied by line 110 before the \<open>break\<close>).
  The loop follows \<open>came_from\<close> and need not end for an arbitrary dictionary.
\<close>

partial_function (option) reconstruct ::
  "cell \<Rightarrow> bool \<Rightarrow> astar_state \<Rightarrow> cell \<Rightarrow> cell list \<Rightarrow> (cell list \<times> astar_state) option" where
  "reconstruct start visualize s current path =
     (if current \<noteq> start
      then (case dict_get (came_from s) current of
              None \<Rightarrow> Some ([], s)
            | Some c \<Rightarrow>
                reconstruct start visualize
                  (s\<lparr>emitted := emitted s @
                     (if visualize then [(visited s, frontier s, Some (path @ [current]))] else [])\<rparr>)
                  c (path @ [current]))
      else Some (path, s))"

declare reconstruct.simps [code]

text \<open>
  \<open>astar\<close>: the search loop, the reconstruction, then lines 114 to 116. The result
  is \<open>None\<close> if the run does not end, an exception with the snapshots yielded before
  it, or the final state, whose last snapshot carries the path.
\<close>

definition astar ::
  "grid_t \<Rightarrow> cell \<Rightarrow> cell \<Rightarrow> bool \<Rightarrow> (py_error \<times> snapshot list + astar_state) option" where
  "astar g start goal visualize =
     (case search_loop goal visualize (astar_init g start) of
        Inl err \<Rightarrow> Some (Inl err)
      | Inr s \<Rightarrow>
          (case reconstruct start visualize s goal [] of
             None \<Rightarrow> None
           | Some (path, s') \<Rightarrow>
               Some (Inr (s'\<lparr>emitted := emitted s' @
                 [(visited s', frontier s', Some (rev (path @ [start])))]\<rparr>))))"

text \<open>The snapshots of a run, and the path of the final one.\<close>

definition snapshots :: "(py_error \<times> snapshot list + astar_state) \<Rightarrow> snapshot list" where
  "snapshots r = (case r of Inl (e, snaps) \<Rightarrow> snaps | Inr s \<Rightarrow> emitted s)"

definition final_path :: "astar_state \<Rightarrow> cell list option" where
  "final_path s = (case emitted s of [] \<Rightarrow> None | _ \<Rightarrow> snd (snd (last (emitted s))))"

definition astar_path :: "grid_t \<Rightarrow> cell \<Rightarrow> cell \<Rightarrow> bool \<Rightarrow> (py_error + cell list option) option" where
  "astar_path g start goal visualize =
     map_option (map_sum fst final_path) (astar g start goal visualize)"

text \<open>
  The loop head at the start of iteration \<open>n + 1\<close> of the search loop, if the loop
  gets there.
\<close>

fun search_iter :: "cell \<Rightarrow> bool \<Rightarrow> nat \<Rightarrow> astar_state \<Rightarrow> astar_state option" where
  "search_iter goal visualize 0 s = Some s"
| "search_iter goal visualize (Suc n) s =
     (if frontier s = [] then None
      else (case astar_step goal visualize s of
              Inr (Next s') \<Rightarrow> search_iter goal visualize n s'
            | _ \<Rightarrow> None))"

section \<open>Invariants of the search\<close>

subsection \<open>Rules for the loops\<close>

lemma expand_rule:
  assumes "Q s" "expand goal current ds s = Inr s'"
    and "\<And>d s s'. Q s \<Longrightarrow> relax goal current d s = Inr s' \<Longrightarrow> Q s'"
  shows "Q s'"
  using assms(1,2)
proof (induction ds arbitrary: s)
  case Nil
  then show ?case by simp
next
  case (Cons d ds)
  from Cons.prems(2) obtain s1 where r: "relax goal current d s = Inr s1"
    and e: "expand goal current ds s1 = Inr s'"
    by (auto split: sum.splits)
  from assms(3) [OF Cons.prems(1) r] e show ?case by (rule Cons.IH)
qed

lemma relax_cases:
  assumes "relax goal current d s = Inr s'"
  obtains (same) "s' = s"
  | (push) c where "passable (sgrid s) (fst current + fst d) (snd current + snd d) = Inr True"
      "cost_so_far s current = Some c"
      "case cost_so_far s (fst current + fst d, snd current + snd d) of
         None \<Rightarrow> True | Some old \<Rightarrow> c + 1 < old"
      "s' = s\<lparr>cost_so_far := (cost_so_far s)((fst current + fst d, snd current + snd d) \<mapsto> c + 1),
        frontier := heappush (frontier s)
          (int (c + 1) + heuristic goal (fst current + fst d, snd current + snd d),
           (fst current + fst d, snd current + snd d)),
        came_from := (came_from s)((fst current + fst d, snd current + snd d) \<mapsto> Some current)\<rparr>"
  using assms
  by (auto simp: relax_def Let_def split: sum.splits bool.splits option.splits if_splits)

lemma astar_step_Next_cases:
  assumes "astar_step goal visualize s = Inr (Next s')"
  obtains item fr s2 where "heappop (frontier s) = Inr (item, fr)" "snd item \<noteq> goal"
    "expand goal (snd item) [(-1, 0), (1, 0), (0, -1), (0, 1)] (s\<lparr>frontier := fr\<rparr>) = Inr s2"
    "s' = s2\<lparr>visited := insert (snd item) (visited s2),
        emitted := emitted s2 @
          (if visualize then [(insert (snd item) (visited s2), frontier s2, None)] else [])\<rparr>"
  using assms
  by (auto simp: astar_step_def Let_def split: sum.splits prod.splits if_splits)

lemma astar_step_Break_cases:
  assumes "astar_step goal visualize s = Inr (Break s')"
  obtains p fr where "heappop (frontier s) = Inr ((p, goal), fr)" "s' = s\<lparr>frontier := fr\<rparr>"
  using assms
  by (auto simp: astar_step_def Let_def split: sum.splits prod.splits if_splits)

text \<open>
  How the search loop ends from a state that satisfies an invariant \<open>P\<close> of its
  iterations: at a loop head \<open>s0\<close> that satisfies \<open>P\<close>, by an exception, an empty
  frontier or \<open>break\<close>.
\<close>

lemma search_loop_exit:
  assumes "P s" and "\<And>s s'. P s \<Longrightarrow> astar_step goal visualize s = Inr (Next s') \<Longrightarrow> P s'"
  shows "\<exists>s0. P s0 \<and>
    (case search_loop goal visualize s of
       Inl (e, snaps) \<Rightarrow> frontier s0 \<noteq> [] \<and> astar_step goal visualize s0 = Inl e \<and> snaps = emitted s0
     | Inr s' \<Rightarrow> frontier s0 = [] \<and> s' = s0 \<or>
         frontier s0 \<noteq> [] \<and> astar_step goal visualize s0 = Inr (Break s'))"
  using assms
proof (induction goal visualize s rule: search_loop.induct)
  case (1 goal visualize s)
  show ?case
  proof (cases "frontier s = []")
    case True
    with "1.prems"(1) show ?thesis
      by (intro exI [of _ s]) (simp add: search_loop.simps [of goal visualize s])
  next
    case False
    show ?thesis
    proof (cases "astar_step goal visualize s")
      case (Inl e)
      with False "1.prems"(1) show ?thesis
        by (intro exI [of _ s]) (simp add: search_loop.simps [of goal visualize s])
    next
      case (Inr r)
      show ?thesis
      proof (cases r)
        case (Break s')
        with False Inr "1.prems"(1) show ?thesis
          by (intro exI [of _ s]) (simp add: search_loop.simps [of goal visualize s])
      next
        case (Next s')
        with Inr have st: "astar_step goal visualize s = Inr (Next s')" by simp
        from "1.prems"(2) [OF "1.prems"(1) st] have "P s'" .
        from "1.IH" [OF False Inr Next this "1.prems"(2)] False st show ?thesis
          by (simp add: search_loop.simps [of goal visualize s])
      qed
    qed
  qed
qed

lemma search_iter_rule:
  assumes "P s" and "\<And>s s'. P s \<Longrightarrow> astar_step goal visualize s = Inr (Next s') \<Longrightarrow> P s'"
    and "search_iter goal visualize n s = Some s'"
  shows "P s'"
  using assms(1,3)
proof (induction n arbitrary: s)
  case 0
  then show ?case by simp
next
  case (Suc n)
  from Suc.prems(2) obtain s1 where st: "astar_step goal visualize s = Inr (Next s1)"
    and it: "search_iter goal visualize n s1 = Some s'"
    by (auto split: if_splits sum.splits step.splits)
  from assms(2) [OF Suc.prems(1) st] it show ?case by (rule Suc.IH)
qed

subsection \<open>The grid, the goal and the heap\<close>

definition inv_frame :: "grid_t \<Rightarrow> cell \<Rightarrow> astar_state \<Rightarrow> bool" where
  "inv_frame g goal s \<longleftrightarrow>
     sgrid s = g \<and> goal \<notin> visited s \<and> (\<forall>snap \<in> set (emitted s). goal \<notin> fst snap)"

definition inv_heap :: "astar_state \<Rightarrow> bool" where
  "inv_heap s \<longleftrightarrow>
     is_heap (frontier s) \<and> (\<forall>e \<in> set (frontier s). snd e \<in> dom (cost_so_far s))"

lemma set_heappush: "set (heappush h x) = insert x (set h)"
  using heappush_mset [of h x] by (metis set_mset_add_mset_insert set_mset_mset)

lemma relax_frame: "inv_frame g goal s \<Longrightarrow> relax goal current d s = Inr s' \<Longrightarrow> inv_frame g goal s'"
  by (erule relax_cases) (auto simp: inv_frame_def)

lemma relax_heap: "inv_heap s \<Longrightarrow> relax goal current d s = Inr s' \<Longrightarrow> inv_heap s'"
  by (erule relax_cases) (auto simp: inv_heap_def set_heappush heappush_heap)

lemma heappop_heap_set:
  assumes "is_heap h" "heappop h = Inr (x, h')"
  shows "is_heap h'" "set h = insert x (set h')" "x = h ! 0" "h \<noteq> []"
proof -
  from assms(2) show ne: "h \<noteq> []" by (auto simp: heappop_def)
  from heappop_props [OF assms(1) ne] assms(2)
  have *: "x = h ! 0" "is_heap h'" "mset h = add_mset x (mset h')" by auto
  then show "is_heap h'" "x = h ! 0" by simp_all
  from *(3) show "set h = insert x (set h')"
    by (metis set_mset_add_mset_insert set_mset_mset)
qed

lemma astar_step_frame:
  assumes "inv_frame g goal s" "astar_step goal visualize s = Inr (Next s')"
  shows "inv_frame g goal s'"
proof -
  from assms(2) obtain item fr s2 where pop: "heappop (frontier s) = Inr (item, fr)"
    and ne: "snd item \<noteq> goal"
    and ex: "expand goal (snd item) [(-1, 0), (1, 0), (0, -1), (0, 1)] (s\<lparr>frontier := fr\<rparr>) = Inr s2"
    and s': "s' = s2\<lparr>visited := insert (snd item) (visited s2),
        emitted := emitted s2 @
          (if visualize then [(insert (snd item) (visited s2), frontier s2, None)] else [])\<rparr>"
    by (rule astar_step_Next_cases)
  from assms(1) have "inv_frame g goal (s\<lparr>frontier := fr\<rparr>)" by (simp add: inv_frame_def)
  then have "inv_frame g goal s2" using ex by (rule expand_rule) (rule relax_frame)
  with ne show ?thesis by (auto simp: s' inv_frame_def)
qed

lemma astar_step_heap:
  assumes "inv_heap s" "astar_step goal visualize s = Inr (Next s')"
  shows "inv_heap s'"
proof -
  from assms(2) obtain item fr s2 where pop: "heappop (frontier s) = Inr (item, fr)"
    and ex: "expand goal (snd item) [(-1, 0), (1, 0), (0, -1), (0, 1)] (s\<lparr>frontier := fr\<rparr>) = Inr s2"
    and s': "s' = s2\<lparr>visited := insert (snd item) (visited s2),
        emitted := emitted s2 @
          (if visualize then [(insert (snd item) (visited s2), frontier s2, None)] else [])\<rparr>"
    by (rule astar_step_Next_cases)
  from assms(1) heappop_heap_set(1,2) [OF _ pop]
  have "inv_heap (s\<lparr>frontier := fr\<rparr>)" by (auto simp: inv_heap_def)
  then have "inv_heap s2" using ex by (rule expand_rule) (rule relax_heap)
  then show ?thesis by (simp add: s' inv_heap_def)
qed

lemma astar_init_frame: "inv_frame g goal (astar_init g start)"
  by (simp add: inv_frame_def astar_init_def)

lemma heappush_Nil: "heappush [] x = [x]"
  by (simp add: heappush_def siftdown_def siftdown_loop.simps)

lemma astar_init_heap: "inv_heap (astar_init g start)"
  by (simp add: inv_heap_def astar_init_def heappush_Nil is_heap_def)

subsection \<open>The predecessors\<close>

text \<open>
  Every cell with a cost but the start has a predecessor of lower cost, so that
  following \<open>came_from\<close> ends at the start.
\<close>

definition inv_chain :: "cell \<Rightarrow> astar_state \<Rightarrow> bool" where
  "inv_chain start s \<longleftrightarrow>
     cost_so_far s start = Some 0 \<and> came_from s start = Some None \<and>
     dom (came_from s) = dom (cost_so_far s) \<and>
     (\<forall>c. came_from s c = Some None \<longrightarrow> c = start) \<and>
     (\<forall>c p. came_from s c = Some (Some p) \<longrightarrow>
        (\<exists>gp gc. cost_so_far s p = Some gp \<and> cost_so_far s c = Some gc \<and> gp < gc))"

lemma astar_init_chain: "inv_chain start (astar_init g start)"
  by (auto simp: inv_chain_def astar_init_def split: if_splits)

lemma relax_chain:
  assumes "inv_chain start s" "relax goal current d s = Inr s'"
  shows "inv_chain start s'"
  using assms(2)
proof (cases rule: relax_cases)
  case same
  with assms(1) show ?thesis by simp
next
  case (push c)
  let ?n = "(fst current + fst d, snd current + snd d)"
  from assms(1) have st: "cost_so_far s start = Some 0" "came_from s start = Some None"
    and dm: "dom (came_from s) = dom (cost_so_far s)"
    and nn: "\<And>c. came_from s c = Some None \<Longrightarrow> c = start"
    and ch: "\<And>c p. came_from s c = Some (Some p) \<Longrightarrow>
        \<exists>gp gc. cost_so_far s p = Some gp \<and> cost_so_far s c = Some gc \<and> gp < gc"
    by (auto simp: inv_chain_def)
  from push(3) st have ns: "?n \<noteq> start" by auto
  from push(2,3) have nc: "?n \<noteq> current" by auto
  show ?thesis
    unfolding inv_chain_def
  proof (intro conjI allI impI)
    from ns st show "cost_so_far s' start = Some 0" by (simp add: push(4))
    from ns st show "came_from s' start = Some None" by (simp add: push(4))
    from dm show "dom (came_from s') = dom (cost_so_far s')" by (simp add: push(4))
  next
    fix k assume "came_from s' k = Some None"
    then show "k = start" by (auto simp: push(4) split: if_splits dest: nn)
  next
    fix k p assume k: "came_from s' k = Some (Some p)"
    show "\<exists>gp gc. cost_so_far s' p = Some gp \<and> cost_so_far s' k = Some gc \<and> gp < gc"
    proof (cases "k = ?n")
      case True
      with k have "p = current" by (simp add: push(4))
      with True nc push(2) show ?thesis by (simp add: push(4))
    next
      case False
      with k have "came_from s k = Some (Some p)" by (simp add: push(4))
      from ch [OF this] obtain gp gc
        where g: "cost_so_far s p = Some gp" "cost_so_far s k = Some gc" "gp < gc"
        by blast
      show ?thesis
      proof (cases "p = ?n")
        case True
        with g(1) push(3) have "c + 1 < gp" by simp
        with g True False show ?thesis by (simp add: push(4))
      next
        case pn: False
        with g False show ?thesis by (simp add: push(4))
      qed
    qed
  qed
qed

lemma astar_step_chain:
  assumes "inv_chain start s" "astar_step goal visualize s = Inr (Next s')"
  shows "inv_chain start s'"
proof -
  from assms(2) obtain item fr s2 where pop: "heappop (frontier s) = Inr (item, fr)"
    and ne: "snd item \<noteq> goal"
    and ex: "expand goal (snd item) [(-1, 0), (1, 0), (0, -1), (0, 1)] (s\<lparr>frontier := fr\<rparr>) = Inr s2"
    and s': "s' = s2\<lparr>visited := insert (snd item) (visited s2),
        emitted := emitted s2 @
          (if visualize then [(insert (snd item) (visited s2), frontier s2, None)] else [])\<rparr>"
    by (rule astar_step_Next_cases)
  from assms(1) have "inv_chain start (s\<lparr>frontier := fr\<rparr>)" by (simp add: inv_chain_def)
  then have "inv_chain start s2" using ex by (rule expand_rule) (rule relax_chain)
  then show ?thesis by (simp add: s' inv_chain_def)
qed

text \<open>
  The cells that the reconstruction appends from \<open>c\<close> on: \<open>c\<close>, its predecessor,
  and so on up to the start, which is left out.
\<close>

fun chain :: "astar_state \<Rightarrow> cell \<Rightarrow> cell \<Rightarrow> cell list \<Rightarrow> bool" where
  "chain s start c [] \<longleftrightarrow> c = start"
| "chain s start c (x # w) \<longleftrightarrow>
     x = c \<and> c \<noteq> start \<and> (\<exists>p. came_from s c = Some (Some p) \<and> chain s start p w)"

lemma chain_emitted [simp]: "chain (s\<lparr>emitted := em\<rparr>) start c w = chain s start c w"
  by (induction w arbitrary: c) auto

lemma chain_frontier [simp]: "chain (s\<lparr>frontier := fr\<rparr>) start c w = chain s start c w"
  by (induction w arbitrary: c) auto

text \<open>
  Under the invariant the reconstruction ends. It adds snapshots that carry the
  visited set and the frontier, and returns the empty path for a cell without a
  cost, the chain of predecessors otherwise.
\<close>

lemma reconstruct_chain:
  assumes "inv_chain start s"
    and "(case cost_so_far s c of None \<Rightarrow> 0 | Some k \<Rightarrow> Suc k) \<le> n"
  shows "\<exists>P more. reconstruct start visualize s c path = Some (P, s\<lparr>emitted := emitted s @ more\<rparr>) \<and>
    (\<forall>snap \<in> set more. fst snap = visited s) \<and>
    (cost_so_far s c = None \<longrightarrow> P = []) \<and>
    (\<forall>k. cost_so_far s c = Some k \<longrightarrow> (\<exists>w. P = path @ w \<and> chain s start c w \<and> length w \<le> k))"
  using assms
proof (induction n arbitrary: s c path)
  case 0
  then have none: "cost_so_far s c = None" by (simp split: option.splits)
  with "0.prems"(1) have "c \<noteq> start" "came_from s c = None"
    by (auto simp: inv_chain_def)
  then have "reconstruct start visualize s c path = Some ([], s\<lparr>emitted := emitted s @ []\<rparr>)"
    by (subst reconstruct.simps) (simp add: dict_get_def)
  with none show ?case by (intro exI [of _ "[]"]) simp
next
  case (Suc n)
  show ?case
  proof (cases "c = start")
    case True
    then have "reconstruct start visualize s c path = Some (path, s\<lparr>emitted := emitted s @ []\<rparr>)"
      by (subst reconstruct.simps) simp
    moreover from True Suc.prems(1) have "cost_so_far s c = Some 0" by (simp add: inv_chain_def)
    ultimately show ?thesis using True
      by (intro exI [of _ path] exI [of _ "[]"]) simp
  next
    case False
    show ?thesis
    proof (cases "came_from s c")
      case None
      with Suc.prems(1) have none: "cost_so_far s c = None" by (auto simp: inv_chain_def)
      from False None
      have "reconstruct start visualize s c path = Some ([], s\<lparr>emitted := emitted s @ []\<rparr>)"
        by (subst reconstruct.simps) (simp add: dict_get_def)
      with none show ?thesis by (intro exI [of _ "[]"]) simp
    next
      case (Some v)
      from Suc.prems(1) have "\<forall>k. came_from s k = Some None \<longrightarrow> k = start"
        by (simp add: inv_chain_def)
      with False have "came_from s c \<noteq> Some None" by blast
      with Some obtain p where p: "came_from s c = Some (Some p)"
        by (cases v) simp_all
      with Suc.prems(1) obtain gp gc where g: "cost_so_far s p = Some gp"
        "cost_so_far s c = Some gc" "gp < gc"
        unfolding inv_chain_def by blast
      let ?new = "if visualize then [(visited s, frontier s, Some (path @ [c]))] else []"
      let ?s1 = "s\<lparr>emitted := emitted s @ ?new\<rparr>"
      from Suc.prems(1) have i1: "inv_chain start ?s1" by (simp add: inv_chain_def)
      from g Suc.prems(2) have "(case cost_so_far ?s1 p of None \<Rightarrow> 0 | Some k \<Rightarrow> Suc k) \<le> n"
        by simp
      from Suc.IH [OF i1 this, of "path @ [c]"] g(1) obtain P more w
        where r: "reconstruct start visualize ?s1 p (path @ [c])
            = Some (P, ?s1\<lparr>emitted := emitted ?s1 @ more\<rparr>)"
          and m: "\<forall>snap \<in> set more. fst snap = visited s"
          and w: "P = (path @ [c]) @ w" "chain s start p w" "length w \<le> gp"
        by auto
      from False p r have A: "reconstruct start visualize s c path
          = Some (P, s\<lparr>emitted := emitted s @ (?new @ more)\<rparr>)"
        by (subst reconstruct.simps) (simp add: dict_get_def)
      from m have B: "\<forall>snap \<in> set (?new @ more). fst snap = visited s" by auto
      from g(2) have C: "cost_so_far s c = None \<longrightarrow> P = []" by simp
      from w False p g have "P = path @ (c # w) \<and> chain s start c (c # w) \<and> length (c # w) \<le> gc"
        by simp
      then have "\<exists>w'. P = path @ w' \<and> chain s start c w' \<and> length w' \<le> gc" ..
      with g(2) have D: "\<forall>k. cost_so_far s c = Some k \<longrightarrow>
          (\<exists>w. P = path @ w \<and> chain s start c w \<and> length w \<le> k)"
        by simp
      show ?thesis
      proof (intro exI conjI)
        show "reconstruct start visualize s c path
          = Some (P, s\<lparr>emitted := emitted s @ (?new @ more)\<rparr>)" by (rule A)
        show "\<forall>snap \<in> set (?new @ more). fst snap = visited s" by (rule B)
        show "cost_so_far s c = None \<longrightarrow> P = []" by (rule C)
        show "\<forall>k. cost_so_far s c = Some k \<longrightarrow>
          (\<exists>w. P = path @ w \<and> chain s start c w \<and> length w \<le> k)" by (rule D)
      qed
    qed
  qed
qed

subsection \<open>The run as a whole\<close>

definition inv_all :: "grid_t \<Rightarrow> cell \<Rightarrow> cell \<Rightarrow> astar_state \<Rightarrow> bool" where
  "inv_all g start goal s \<longleftrightarrow> inv_frame g goal s \<and> inv_heap s \<and> inv_chain start s"

lemma astar_init_all: "inv_all g start goal (astar_init g start)"
  by (simp add: inv_all_def astar_init_frame astar_init_heap astar_init_chain)

lemma astar_step_all:
  "inv_all g start goal s \<Longrightarrow> astar_step goal visualize s = Inr (Next s') \<Longrightarrow>
   inv_all g start goal s'"
  by (auto simp: inv_all_def intro: astar_step_frame astar_step_heap astar_step_chain)

lemma search_iter_all:
  "search_iter goal visualize n (astar_init g start) = Some s \<Longrightarrow> inv_all g start goal s"
  by (rule search_iter_rule [where P = "inv_all g start goal", OF astar_init_all])
    (auto intro: astar_step_all)

text \<open>
  The state in which the search loop ends \<open>s'\<close>, from the loop head \<open>s0\<close> of its last
  iteration.
\<close>

lemma search_loop_all:
  "\<exists>s0. inv_all g start goal s0 \<and>
    (case search_loop goal visualize (astar_init g start) of
       Inl (e, snaps) \<Rightarrow>
         frontier s0 \<noteq> [] \<and> astar_step goal visualize s0 = Inl e \<and> snaps = emitted s0
     | Inr s' \<Rightarrow> frontier s0 = [] \<and> s' = s0 \<or>
         frontier s0 \<noteq> [] \<and> astar_step goal visualize s0 = Inr (Break s'))"
  by (rule search_loop_exit [where P = "inv_all g start goal", OF astar_init_all])
    (auto intro: astar_step_all)

lemma search_loop_Inr_all:
  assumes "search_loop goal visualize (astar_init g start) = Inr s'"
  shows "inv_all g start goal s'"
proof -
  from search_loop_all [of g start goal visualize] assms obtain s0
    where s0: "inv_all g start goal s0"
      and ex: "frontier s0 = [] \<and> s' = s0 \<or>
        frontier s0 \<noteq> [] \<and> astar_step goal visualize s0 = Inr (Break s')"
    by auto
  from ex show ?thesis
  proof
    assume "frontier s0 = [] \<and> s' = s0"
    with s0 show ?thesis by simp
  next
    assume "frontier s0 \<noteq> [] \<and> astar_step goal visualize s0 = Inr (Break s')"
    then obtain p fr where pop: "heappop (frontier s0) = Inr ((p, goal), fr)"
      and s': "s' = s0\<lparr>frontier := fr\<rparr>"
      by (auto elim: astar_step_Break_cases)
    from s0 have h: "is_heap (frontier s0)" by (simp add: inv_all_def inv_heap_def)
    from heappop_heap_set(1,2) [OF h pop] s0 show ?thesis
      by (auto simp: s' inv_all_def inv_frame_def inv_heap_def inv_chain_def)
  qed
qed

text \<open>
  What \<open>astar\<close> returns after a search loop that ended in \<open>s'\<close>: the state with the
  snapshots of the reconstruction and the final one, whose path is the start
  followed by the reversed chain from the goal.
\<close>

lemma astar_Inr:
  assumes "search_loop goal visualize (astar_init g start) = Inr s'"
  shows "\<exists>P more. astar g start goal visualize =
      Some (Inr (s'\<lparr>emitted := emitted s' @ more @
        [(visited s', frontier s', Some (rev (P @ [start])))]\<rparr>)) \<and>
    (\<forall>snap \<in> set more. fst snap = visited s') \<and>
    (cost_so_far s' goal = None \<longrightarrow> P = []) \<and>
    (\<forall>k. cost_so_far s' goal = Some k \<longrightarrow> chain s' start goal P \<and> length P \<le> k)"
proof -
  from search_loop_Inr_all [OF assms] have "inv_chain start s'" by (simp add: inv_all_def)
  from reconstruct_chain [where c = goal and visualize = visualize and path = "[]",
      OF this le_refl] obtain P more
    where r: "reconstruct start visualize s' goal [] = Some (P, s'\<lparr>emitted := emitted s' @ more\<rparr>)"
      and m: "\<forall>snap \<in> set more. fst snap = visited s'"
      and n: "cost_so_far s' goal = None \<longrightarrow> P = []"
      and c': "\<forall>k. cost_so_far s' goal = Some k \<longrightarrow> chain s' start goal P \<and> length P \<le> k"
    by auto
  from assms r have a: "astar g start goal visualize =
      Some (Inr (s'\<lparr>emitted := emitted s' @ more @
        [(visited s', frontier s', Some (rev (P @ [start])))]\<rparr>))"
    by (simp add: astar_def)
  show ?thesis
  proof (intro exI conjI)
    show "astar g start goal visualize =
      Some (Inr (s'\<lparr>emitted := emitted s' @ more @
        [(visited s', frontier s', Some (rev (P @ [start])))]\<rparr>))" by (rule a)
    show "\<forall>snap \<in> set more. fst snap = visited s'" by (rule m)
    show "cost_so_far s' goal = None \<longrightarrow> P = []" by (rule n)
    show "\<forall>k. cost_so_far s' goal = Some k \<longrightarrow> chain s' start goal P \<and> length P \<le> k"
      by (rule c')
  qed
qed

lemma astar_Inl:
  "search_loop goal visualize (astar_init g start) = Inl err \<Longrightarrow>
   astar g start goal visualize = Some (Inl err)"
  by (simp add: astar_def)

text \<open>\<open>astar\<close> ends on every input.\<close>

lemma astar_total: "\<exists>r. astar g start goal visualize = Some r"
proof (cases "search_loop goal visualize (astar_init g start)")
  case (Inl err)
  then show ?thesis by (simp add: astar_Inl)
next
  case (Inr s')
  from astar_Inr [OF this] show ?thesis by blast
qed

subsection \<open>No exception on a rectangular grid\<close>

lemma passable_rect:
  assumes "rect w h g" "0 < h"
  shows "passable g x y = Inr (0 \<le> x \<and> x < w \<and> 0 \<le> y \<and> y < h \<and> g ! nat y ! nat x = 0)"
proof -
  from assms have len: "length g = nat h" "0 < length g" by (simp_all add: rect_def)
  then have "g ! 0 \<in> set g" by simp
  with assms(1) have row0: "length (g ! 0) = nat w" by (simp add: rect_def)
  from len have get0: "py_get g 0 = Inr (g ! 0)" by (simp add: py_get_def py_index_def)
  show ?thesis
  proof (cases "0 \<le> x \<and> x < w \<and> 0 \<le> y \<and> y < h")
    case True
    with grid_get_rect [OF assms(1), of x y] have "grid_get g x y = Inr (g ! nat y ! nat x)"
      by simp
    with True get0 row0 len show ?thesis by (simp add: passable_def)
  next
    case False
    with get0 row0 len assms(2) show ?thesis by (auto simp: passable_def)
  qed
qed

lemma relax_no_error:
  assumes "rect w h (sgrid s)" "0 < h" "current \<in> dom (cost_so_far s)"
  shows "\<exists>s'. relax goal current d s = Inr s' \<and> sgrid s' = sgrid s \<and>
    current \<in> dom (cost_so_far s')"
proof -
  from assms(3) obtain c where c: "cost_so_far s current = Some c" by auto
  show ?thesis
    using c
    by (auto simp: relax_def Let_def passable_rect [OF assms(1,2)] split: bool.splits if_splits)
qed

lemma expand_no_error:
  assumes "rect w h (sgrid s)" "0 < h" "current \<in> dom (cost_so_far s)"
  shows "\<exists>s'. expand goal current ds s = Inr s'"
  using assms
proof (induction ds arbitrary: s)
  case Nil
  then show ?case by simp
next
  case (Cons d ds)
  from relax_no_error [OF Cons.prems, of goal d] obtain s1
    where s1: "relax goal current d s = Inr s1" "sgrid s1 = sgrid s"
      "current \<in> dom (cost_so_far s1)"
    by blast
  with Cons.prems have "rect w h (sgrid s1)" by simp
  from Cons.IH [OF this Cons.prems(2) s1(3)] s1(1) show ?case by simp
qed

lemma astar_step_no_error:
  assumes "inv_heap s" "rect w h (sgrid s)" "0 < h" "frontier s \<noteq> []"
  shows "\<exists>r. astar_step goal visualize s = Inr r"
proof -
  from assms(1) have h: "is_heap (frontier s)" by (simp add: inv_heap_def)
  from heappop_props [OF h assms(4)] obtain fr
    where pop: "heappop (frontier s) = Inr (frontier s ! 0, fr)" by blast
  from assms(4) have "frontier s ! 0 \<in> set (frontier s)" by simp
  with assms(1) have "snd (frontier s ! 0) \<in> dom (cost_so_far (s\<lparr>frontier := fr\<rparr>))"
    by (simp add: inv_heap_def)
  moreover from assms(2) have "rect w h (sgrid (s\<lparr>frontier := fr\<rparr>))" by simp
  ultimately obtain s2
    where "expand goal (snd (frontier s ! 0)) [(-1, 0), (1, 0), (0, -1), (0, 1)]
      (s\<lparr>frontier := fr\<rparr>) = Inr s2"
    using expand_no_error [of w h "s\<lparr>frontier := fr\<rparr>" "snd (frontier s ! 0)" goal
        "[(-1, 0), (1, 0), (0, -1), (0, 1)]"] assms(3)
    by blast
  with pop show ?thesis by (simp add: astar_step_def Let_def)
qed

lemma search_loop_no_error:
  assumes "rect w h g" "0 < h"
  shows "\<exists>s'. search_loop goal visualize (astar_init g start) = Inr s'"
proof (cases "search_loop goal visualize (astar_init g start)")
  case (Inr s')
  then show ?thesis by simp
next
  case (Inl err)
  obtain e snaps where err: "err = (e, snaps)" by (cases err)
  from search_loop_all [of g start goal visualize] Inl err obtain s0
    where s0: "inv_all g start goal s0" "frontier s0 \<noteq> []"
      "astar_step goal visualize s0 = Inl e"
    by auto
  from s0(1) have "inv_heap s0" "sgrid s0 = g" by (simp_all add: inv_all_def inv_frame_def)
  with astar_step_no_error [of s0 w h goal visualize] assms s0(2,3) show ?thesis by auto
qed

lemma search_loop_start_goal:
  "search_loop goal visualize (astar_init g goal) = Inr ((astar_init g goal)\<lparr>frontier := []\<rparr>)"
proof -
  have f: "frontier (astar_init g goal) = [(0, goal)]"
    by (simp add: astar_init_def heappush_Nil)
  then have "astar_step goal visualize (astar_init g goal)
      = Inr (Break ((astar_init g goal)\<lparr>frontier := []\<rparr>))"
    by (simp add: astar_step_def heappop_def)
  with f show ?thesis
    by (simp add: search_loop.simps [of goal visualize "astar_init g goal"])
qed

lemma final_path_last: "emitted s \<noteq> [] \<Longrightarrow> final_path s = snd (snd (last (emitted s)))"
  by (cases "emitted s") (simp_all add: final_path_def)



subsection \<open>Paths of the grid\<close>

text \<open>
  A cell is open when it lies within the grid and holds 0. Two cells are adjacent when
  they differ by one step along one axis. A walk is a non-empty list of open cells,
  each adjacent to the next.
\<close>

definition open_cell :: "grid_t \<Rightarrow> cell \<Rightarrow> bool" where
  "open_cell g c \<longleftrightarrow>
     0 \<le> fst c \<and> 0 \<le> snd c \<and> nat (snd c) < length g \<and>
     nat (fst c) < length (g ! nat (snd c)) \<and> g ! nat (snd c) ! nat (fst c) = 0"

definition adjacent :: "cell \<Rightarrow> cell \<Rightarrow> bool" where
  "adjacent a b \<longleftrightarrow> \<bar>fst a - fst b\<bar> + \<bar>snd a - snd b\<bar> = 1"

fun walk :: "grid_t \<Rightarrow> cell list \<Rightarrow> bool" where
  "walk g [] \<longleftrightarrow> False"
| "walk g [c] \<longleftrightarrow> open_cell g c"
| "walk g (c # d # cs) \<longleftrightarrow> open_cell g c \<and> adjacent c d \<and> walk g (d # cs)"

definition path_from_to :: "grid_t \<Rightarrow> cell \<Rightarrow> cell \<Rightarrow> cell list \<Rightarrow> bool" where
  "path_from_to g a b p \<longleftrightarrow> walk g p \<and> hd p = a \<and> last p = b"

lemma passable_open:
  assumes "rect w h g" "0 < h"
  shows "passable g x y = Inr (open_cell g (x, y))"
proof -
  have "(0 \<le> x \<and> x < w \<and> 0 \<le> y \<and> y < h \<and> g ! nat y ! nat x = 0) = open_cell g (x, y)"
  proof (cases "0 \<le> y \<and> y < h")
    case True
    with assms have "nat y < length g" by (simp add: rect_def)
    then have "g ! nat y \<in> set g" by simp
    with assms(1) have "length (g ! nat y) = nat w" by (simp add: rect_def)
    with True assms show ?thesis by (auto simp: open_cell_def rect_def)
  next
    case False
    with assms show ?thesis by (auto simp: open_cell_def rect_def)
  qed
  with passable_rect [OF assms, of x y] show ?thesis by simp
qed

lemma open_cell_rows: "open_cell g c \<Longrightarrow> g \<noteq> []"
  by (auto simp: open_cell_def)

lemma adjacent_dirs:
  assumes "adjacent a b"
  shows "\<exists>d \<in> set [(-1, 0), (1, 0), (0, -1), (0, 1)]. b = (fst a + fst d, snd a + snd d)"
proof -
  obtain ax ay bx by' where [simp]: "a = (ax, ay)" "b = (bx, by')"
    by (cases a, cases b)
  from assms have "\<bar>ax - bx\<bar> + \<bar>ay - by'\<bar> = 1" by (simp add: adjacent_def)
  then have "(bx = ax - 1 \<and> by' = ay) \<or> (bx = ax + 1 \<and> by' = ay) \<or>
      (bx = ax \<and> by' = ay - 1) \<or> (bx = ax \<and> by' = ay + 1)"
    by arith
  then show ?thesis by auto
qed

lemma dirs_adjacent:
  "d \<in> set [(-1, 0), (1, 0), (0, -1), (0, 1)] \<Longrightarrow> adjacent c (fst c + fst d, snd c + snd d)"
  by (auto simp: adjacent_def)

lemma dirs_neq:
  assumes "d \<in> set [(-1, 0), (1, 0), (0, -1), (0, 1)]"
  shows "(fst c + fst d, snd c + snd d) \<noteq> (c :: cell)"
proof -
  from assms have "fst d \<noteq> 0 \<or> snd d \<noteq> 0" by auto
  then show ?thesis by (cases c) auto
qed

text \<open>The heuristic changes by at most one between adjacent cells, and is 0 at the goal.\<close>

lemma heuristic_adjacent: "adjacent a b \<Longrightarrow> heuristic goal a \<le> heuristic goal b + 1"
  by (auto simp: heuristic_def adjacent_def)

lemma heuristic_self [simp]: "heuristic goal goal = 0"
  by (simp add: heuristic_def)

lemma heuristic_walk:
  "walk g (a # rest) \<Longrightarrow> last (a # rest) = goal \<Longrightarrow> heuristic goal a \<le> int (length rest)"
proof (induction rest arbitrary: a)
  case Nil
  then show ?case by simp
next
  case (Cons b rest)
  from Cons.prems have "adjacent a b" "walk g (b # rest)" "last (b # rest) = goal"
    by simp_all
  from Cons.IH [OF this(2,3)] heuristic_adjacent [OF this(1), of goal] show ?case by simp
qed

lemma walk_snoc:
  "walk g xs \<Longrightarrow> adjacent (last xs) c \<Longrightarrow> open_cell g c \<Longrightarrow> walk g (xs @ [c])"
proof (induction g xs rule: walk.induct)
  case (1 g)
  then show ?case by simp
next
  case (2 g a)
  then show ?case by simp
next
  case (3 g a b cs)
  then show ?case by simp
qed

text \<open>What \<open>relax\<close> does on a rectangular grid from a cell that has a cost.\<close>

lemma relax_rect:
  assumes "rect w h (sgrid s)" "0 < h" "cost_so_far s current = Some k"
  shows "relax goal current d s =
    Inr (if open_cell (sgrid s) (fst current + fst d, snd current + snd d) \<and>
            (case cost_so_far s (fst current + fst d, snd current + snd d) of
               None \<Rightarrow> True | Some old \<Rightarrow> k + 1 < old)
         then s\<lparr>cost_so_far :=
                 (cost_so_far s)((fst current + fst d, snd current + snd d) \<mapsto> k + 1),
               frontier := heappush (frontier s)
                 (int (k + 1) + heuristic goal (fst current + fst d, snd current + snd d),
                  (fst current + fst d, snd current + snd d)),
               came_from :=
                 (came_from s)((fst current + fst d, snd current + snd d) \<mapsto> Some current)\<rparr>
         else s)"
  by (auto simp: relax_def Let_def passable_open [OF assms(1,2)] assms(3)
      split: bool.splits option.splits)

subsection \<open>Costs, priorities and links\<close>

definition dirs4 :: "(int \<times> int) list" where
  "dirs4 = [(-1, 0), (1, 0), (0, -1), (0, 1)]"

lemma adjacent_dirs4:
  "adjacent a b \<Longrightarrow> \<exists>d \<in> set dirs4. b = (fst a + fst d, snd a + snd d)"
  unfolding dirs4_def by (rule adjacent_dirs)

lemma dirs4_adjacent: "d \<in> set dirs4 \<Longrightarrow> adjacent c (fst c + fst d, snd c + snd d)"
  unfolding dirs4_def by (rule dirs_adjacent)

lemma dirs4_neq: "d \<in> set dirs4 \<Longrightarrow> (fst c + fst d, snd c + snd d) \<noteq> (c :: cell)"
  unfolding dirs4_def by (rule dirs_neq)

text \<open>
  Every cell with a cost \<open>k\<close> either has an entry in the frontier whose priority is at
  most \<open>k\<close> plus the heuristic, or has been expanded since it got that cost: its
  open neighbours have a cost of at most \<open>k + 1\<close>. During the expansion of a cell
  the pairs in \<open>X\<close>, the cell with the directions still to come, are exempt.
\<close>

definition opt_inv :: "grid_t \<Rightarrow> cell \<Rightarrow> (cell \<times> (int \<times> int)) set \<Rightarrow> astar_state \<Rightarrow> bool" where
  "opt_inv g goal X s \<longleftrightarrow>
     (\<forall>c k. cost_so_far s c = Some k \<longrightarrow>
        (\<exists>p. (p, c) \<in> set (frontier s) \<and> p \<le> int k + heuristic goal c) \<or>
        (\<forall>d \<in> set dirs4.
           open_cell g (fst c + fst d, snd c + snd d) \<longrightarrow>
           (c, d) \<in> X \<or>
           (\<exists>kn. cost_so_far s (fst c + fst d, snd c + snd d) = Some kn \<and> kn \<le> k + 1)))"

text \<open>
  The priority of an entry is at least the cost of its cell plus the heuristic; the
  entry of the start, pushed with priority 0, is the exception.
\<close>

definition entry_inv :: "cell \<Rightarrow> cell \<Rightarrow> astar_state \<Rightarrow> bool" where
  "entry_inv start goal s \<longleftrightarrow>
     (\<forall>e \<in> set (frontier s). \<exists>k. cost_so_far s (snd e) = Some k \<and>
        (int k + heuristic goal (snd e) \<le> fst e \<or> snd e = start))"

text \<open>A predecessor is adjacent to its cell, which is open.\<close>

definition link_inv :: "grid_t \<Rightarrow> astar_state \<Rightarrow> bool" where
  "link_inv g s \<longleftrightarrow> (\<forall>c p. came_from s c = Some (Some p) \<longrightarrow> adjacent p c \<and> open_cell g c)"

definition inv_opt ::
  "grid_t \<Rightarrow> cell \<Rightarrow> cell \<Rightarrow> (cell \<times> (int \<times> int)) set \<Rightarrow> astar_state \<Rightarrow> bool" where
  "inv_opt g start goal X s \<longleftrightarrow>
     sgrid s = g \<and> opt_inv g goal X s \<and> entry_inv start goal s \<and> link_inv g s"

lemma opt_inv_same:
  assumes o: "opt_inv g goal ({c} \<times> set (d # ds)) s"
    and k: "cost_so_far s c = Some k"
    and n: "open_cell g (fst c + fst d, snd c + snd d) \<longrightarrow>
      (\<exists>old. cost_so_far s (fst c + fst d, snd c + snd d) = Some old \<and> old \<le> k + 1)"
  shows "opt_inv g goal ({c} \<times> set ds) s"
  unfolding opt_inv_def
proof (intro allI impI)
  fix c' k'
  assume c': "cost_so_far s c' = Some k'"
  from o c' have "(\<exists>p. (p, c') \<in> set (frontier s) \<and> p \<le> int k' + heuristic goal c') \<or>
      (\<forall>d' \<in> set dirs4.
         open_cell g (fst c' + fst d', snd c' + snd d') \<longrightarrow>
         (c', d') \<in> {c} \<times> set (d # ds) \<or>
         (\<exists>kn. cost_so_far s (fst c' + fst d', snd c' + snd d') = Some kn \<and> kn \<le> k' + 1))"
    unfolding opt_inv_def by blast
  then show "(\<exists>p. (p, c') \<in> set (frontier s) \<and> p \<le> int k' + heuristic goal c') \<or>
      (\<forall>d' \<in> set dirs4.
         open_cell g (fst c' + fst d', snd c' + snd d') \<longrightarrow>
         (c', d') \<in> {c} \<times> set ds \<or>
         (\<exists>kn. cost_so_far s (fst c' + fst d', snd c' + snd d') = Some kn \<and> kn \<le> k' + 1))"
  proof
    assume "\<exists>p. (p, c') \<in> set (frontier s) \<and> p \<le> int k' + heuristic goal c'"
    then show ?thesis ..
  next
    assume a: "\<forall>d' \<in> set dirs4.
         open_cell g (fst c' + fst d', snd c' + snd d') \<longrightarrow>
         (c', d') \<in> {c} \<times> set (d # ds) \<or>
         (\<exists>kn. cost_so_far s (fst c' + fst d', snd c' + snd d') = Some kn \<and> kn \<le> k' + 1)"
    have "\<forall>d' \<in> set dirs4.
         open_cell g (fst c' + fst d', snd c' + snd d') \<longrightarrow>
         (c', d') \<in> {c} \<times> set ds \<or>
         (\<exists>kn. cost_so_far s (fst c' + fst d', snd c' + snd d') = Some kn \<and> kn \<le> k' + 1)"
    proof (intro ballI impI)
      fix d'
      assume d': "d' \<in> set dirs4" and op: "open_cell g (fst c' + fst d', snd c' + snd d')"
      from a d' op have "(c', d') \<in> {c} \<times> set (d # ds) \<or>
         (\<exists>kn. cost_so_far s (fst c' + fst d', snd c' + snd d') = Some kn \<and> kn \<le> k' + 1)"
        by blast
      then show "(c', d') \<in> {c} \<times> set ds \<or>
         (\<exists>kn. cost_so_far s (fst c' + fst d', snd c' + snd d') = Some kn \<and> kn \<le> k' + 1)"
      proof
        assume "(c', d') \<in> {c} \<times> set (d # ds)"
        then have cc: "c' = c" and dd: "d' = d \<or> d' \<in> set ds" by auto
        from dd show ?thesis
        proof
          assume "d' = d"
          with cc op n k c' show ?thesis by auto
        next
          assume "d' \<in> set ds"
          with cc show ?thesis by simp
        qed
      next
        assume "\<exists>kn. cost_so_far s (fst c' + fst d', snd c' + snd d') = Some kn \<and> kn \<le> k' + 1"
        then show ?thesis ..
      qed
    qed
    then show ?thesis ..
  qed
qed

lemma opt_inv_push:
  assumes o: "opt_inv g goal ({c} \<times> set (d # ds)) s"
    and k: "cost_so_far s c = Some k"
    and n: "n = (fst c + fst d, snd c + snd d)" "n \<noteq> c"
    and lt: "\<forall>old. cost_so_far s n = Some old \<longrightarrow> k + 1 < old"
    and f: "set fr = insert (int (k + 1) + heuristic goal n, n) (set (frontier s))"
  shows "opt_inv g goal ({c} \<times> set ds)
    (s\<lparr>cost_so_far := (cost_so_far s)(n \<mapsto> k + 1), frontier := fr, came_from := cf\<rparr>)"
  unfolding opt_inv_def
proof (intro allI impI)
  let ?s' = "s\<lparr>cost_so_far := (cost_so_far s)(n \<mapsto> k + 1), frontier := fr, came_from := cf\<rparr>"
  fix c' k'
  assume c': "cost_so_far ?s' c' = Some k'"
  show "(\<exists>p. (p, c') \<in> set (frontier ?s') \<and> p \<le> int k' + heuristic goal c') \<or>
      (\<forall>d' \<in> set dirs4.
         open_cell g (fst c' + fst d', snd c' + snd d') \<longrightarrow>
         (c', d') \<in> {c} \<times> set ds \<or>
         (\<exists>kn. cost_so_far ?s' (fst c' + fst d', snd c' + snd d') = Some kn \<and> kn \<le> k' + 1))"
  proof (cases "c' = n")
    case True
    with c' have "k' = k + 1" by simp
    with True f have "(int (k + 1) + heuristic goal n, c') \<in> set (frontier ?s') \<and>
        int (k + 1) + heuristic goal n \<le> int k' + heuristic goal c'"
      by simp
    then show ?thesis by blast
  next
    case False
    with c' have c0: "cost_so_far s c' = Some k'" by simp
    from o c0 have "(\<exists>p. (p, c') \<in> set (frontier s) \<and> p \<le> int k' + heuristic goal c') \<or>
        (\<forall>d' \<in> set dirs4.
           open_cell g (fst c' + fst d', snd c' + snd d') \<longrightarrow>
           (c', d') \<in> {c} \<times> set (d # ds) \<or>
           (\<exists>kn. cost_so_far s (fst c' + fst d', snd c' + snd d') = Some kn \<and> kn \<le> k' + 1))"
      unfolding opt_inv_def by blast
    then show ?thesis
    proof
      assume "\<exists>p. (p, c') \<in> set (frontier s) \<and> p \<le> int k' + heuristic goal c'"
      with f have "\<exists>p. (p, c') \<in> set (frontier ?s') \<and> p \<le> int k' + heuristic goal c'"
        by auto
      then show ?thesis ..
    next
      assume a: "\<forall>d' \<in> set dirs4.
           open_cell g (fst c' + fst d', snd c' + snd d') \<longrightarrow>
           (c', d') \<in> {c} \<times> set (d # ds) \<or>
           (\<exists>kn. cost_so_far s (fst c' + fst d', snd c' + snd d') = Some kn \<and> kn \<le> k' + 1)"
      have "\<forall>d' \<in> set dirs4.
         open_cell g (fst c' + fst d', snd c' + snd d') \<longrightarrow>
         (c', d') \<in> {c} \<times> set ds \<or>
         (\<exists>kn. cost_so_far ?s' (fst c' + fst d', snd c' + snd d') = Some kn \<and> kn \<le> k' + 1)"
      proof (intro ballI impI)
        fix d'
        assume d': "d' \<in> set dirs4" and op: "open_cell g (fst c' + fst d', snd c' + snd d')"
        let ?nb = "(fst c' + fst d', snd c' + snd d')"
        from a d' op have "(c', d') \<in> {c} \<times> set (d # ds) \<or>
           (\<exists>kn. cost_so_far s ?nb = Some kn \<and> kn \<le> k' + 1)"
          by blast
        then show "(c', d') \<in> {c} \<times> set ds \<or>
           (\<exists>kn. cost_so_far ?s' ?nb = Some kn \<and> kn \<le> k' + 1)"
        proof
          assume "(c', d') \<in> {c} \<times> set (d # ds)"
          then have cc: "c' = c" and dd: "d' = d \<or> d' \<in> set ds" by auto
          from dd show ?thesis
          proof
            assume "d' = d"
            with cc n(1) have "?nb = n" by simp
            moreover from cc c0 k have "k' = k" by simp
            ultimately show ?thesis by simp
          next
            assume "d' \<in> set ds"
            with cc show ?thesis by simp
          qed
        next
          assume "\<exists>kn. cost_so_far s ?nb = Some kn \<and> kn \<le> k' + 1"
          then obtain kn where kn: "cost_so_far s ?nb = Some kn" "kn \<le> k' + 1" by blast
          show ?thesis
          proof (cases "?nb = n")
            case True
            with kn lt have "k + 1 < kn" by simp
            with kn(2) True show ?thesis by simp
          next
            case False
            with kn show ?thesis by simp
          qed
        qed
      qed
      then show ?thesis ..
    qed
  qed
qed

lemma entry_inv_push:
  assumes e: "entry_inv start goal s"
    and lt: "\<forall>old. cost_so_far s n = Some old \<longrightarrow> k + 1 < old"
    and f: "set fr = insert (int (k + 1) + heuristic goal n, n) (set (frontier s))"
  shows "entry_inv start goal
    (s\<lparr>cost_so_far := (cost_so_far s)(n \<mapsto> k + 1), frontier := fr, came_from := cf\<rparr>)"
  unfolding entry_inv_def
proof
  let ?s' = "s\<lparr>cost_so_far := (cost_so_far s)(n \<mapsto> k + 1), frontier := fr, came_from := cf\<rparr>"
  fix x
  assume "x \<in> set (frontier ?s')"
  with f have x: "x = (int (k + 1) + heuristic goal n, n) \<or> x \<in> set (frontier s)" by simp
  show "\<exists>k'. cost_so_far ?s' (snd x) = Some k' \<and>
      (int k' + heuristic goal (snd x) \<le> fst x \<or> snd x = start)"
  proof (cases "snd x = n")
    case True
    from x show ?thesis
    proof
      assume "x = (int (k + 1) + heuristic goal n, n)"
      then show ?thesis by simp
    next
      assume "x \<in> set (frontier s)"
      with e obtain k0 where k0: "cost_so_far s (snd x) = Some k0"
        "int k0 + heuristic goal (snd x) \<le> fst x \<or> snd x = start"
        unfolding entry_inv_def by blast
      from k0(1) True lt have "k + 1 < k0" by simp
      with k0(2) True show ?thesis by auto
    qed
  next
    case False
    with x have "x \<in> set (frontier s)" by auto
    with e obtain k0 where "cost_so_far s (snd x) = Some k0"
      "int k0 + heuristic goal (snd x) \<le> fst x \<or> snd x = start"
      unfolding entry_inv_def by blast
    with False show ?thesis by simp
  qed
qed

lemma link_inv_push:
  assumes "link_inv g s" "adjacent c n" "open_cell g n"
  shows "link_inv g
    (s\<lparr>cost_so_far := cs, frontier := fr, came_from := (came_from s)(n \<mapsto> Some c)\<rparr>)"
  using assms by (auto simp: link_inv_def)

lemma relax_inv_opt:
  assumes r: "rect w h g" "0 < h"
    and d: "d \<in> set dirs4"
    and k: "cost_so_far s c = Some k"
    and i: "inv_opt g start goal ({c} \<times> set (d # ds)) s"
    and st: "relax goal c d s = Inr s'"
  shows "inv_opt g start goal ({c} \<times> set ds) s' \<and> cost_so_far s' c = Some k"
proof -
  let ?n = "(fst c + fst d, snd c + snd d)"
  let ?push = "open_cell g ?n \<and>
    (case cost_so_far s ?n of None \<Rightarrow> True | Some old \<Rightarrow> k + 1 < old)"
  let ?fr = "heappush (frontier s) (int (k + 1) + heuristic goal ?n, ?n)"
  let ?s1 = "s\<lparr>cost_so_far := (cost_so_far s)(?n \<mapsto> k + 1), frontier := ?fr,
    came_from := (came_from s)(?n \<mapsto> Some c)\<rparr>"
  from i have g: "sgrid s = g" and o: "opt_inv g goal ({c} \<times> set (d # ds)) s"
    and e: "entry_inv start goal s" and l: "link_inv g s"
    by (simp_all add: inv_opt_def)
  from r g have "rect w h (sgrid s)" by simp
  from relax_rect [OF this r(2) k, of goal d] st g
  have s': "s' = (if ?push then ?s1 else s)" by simp
  from dirs4_neq [OF d] have nc: "?n \<noteq> c" .
  show ?thesis
  proof (cases ?push)
    case False
    then have "open_cell g ?n \<longrightarrow> (\<exists>old. cost_so_far s ?n = Some old \<and> old \<le> k + 1)"
      by (auto split: option.splits)
    from opt_inv_same [OF o k this] have "opt_inv g goal ({c} \<times> set ds) s" .
    moreover have "s' = s" unfolding s' using False by (rule if_not_P)
    ultimately show ?thesis using g e l k by (simp add: inv_opt_def)
  next
    case True
    then have op: "open_cell g ?n" and lt: "\<forall>old. cost_so_far s ?n = Some old \<longrightarrow> k + 1 < old"
      by auto
    have f: "set ?fr = insert (int (k + 1) + heuristic goal ?n, ?n) (set (frontier s))"
      by (rule set_heappush)
    from opt_inv_push [OF o k refl nc lt f]
    have 1: "opt_inv g goal ({c} \<times> set ds) ?s1" .
    from entry_inv_push [OF e lt f] have 2: "entry_inv start goal ?s1" .
    from link_inv_push [OF l dirs4_adjacent [OF d] op] have 3: "link_inv g ?s1" .
    from nc k have 4: "cost_so_far ?s1 c = Some k" by simp
    from g have 5: "sgrid ?s1 = g" by simp
    have "s' = ?s1" unfolding s' using True by (rule if_P)
    with 1 2 3 4 5 show ?thesis by (simp only: inv_opt_def simp_thms)
  qed
qed

lemma expand_inv_opt:
  assumes "rect w h g" "0 < h"
    and "set ds \<subseteq> set dirs4"
    and "cost_so_far s c = Some k"
    and "inv_opt g start goal ({c} \<times> set ds) s"
    and "expand goal c ds s = Inr s'"
  shows "inv_opt g start goal {} s'"
  using assms(3-)
proof (induction ds arbitrary: s)
  case Nil
  then show ?case by simp
next
  case (Cons d ds)
  from Cons.prems(1) have d: "d \<in> set dirs4" and ds: "set ds \<subseteq> set dirs4" by simp_all
  from Cons.prems(4) obtain s1 where s1: "relax goal c d s = Inr s1"
    and ex: "expand goal c ds s1 = Inr s'"
    by (auto split: sum.splits)
  from relax_inv_opt [OF assms(1,2) d Cons.prems(2,3) s1]
  have "inv_opt g start goal ({c} \<times> set ds) s1" "cost_so_far s1 c = Some k" by simp_all
  from Cons.IH [OF ds this(2,1) ex] show ?case .
qed

lemma astar_init_inv_opt: "inv_opt g start goal {} (astar_init g start)"
proof -
  have "0 \<le> heuristic goal start" by (simp add: heuristic_def)
  then show ?thesis
    by (auto simp: inv_opt_def opt_inv_def entry_inv_def link_inv_def astar_init_def
        heappush_Nil split: if_splits)
qed

lemma pop_inv_opt:
  assumes h: "is_heap (frontier s)"
    and i: "inv_opt g start goal {} s"
    and pop: "heappop (frontier s) = Inr (item, fr)"
  shows "inv_opt g start goal ({snd item} \<times> set dirs4) (s\<lparr>frontier := fr\<rparr>)"
    and "\<exists>k. cost_so_far s (snd item) = Some k"
proof -
  from heappop_heap_set(2) [OF h pop] have st: "set (frontier s) = insert item (set fr)" .
  from i have g: "sgrid s = g" and o: "opt_inv g goal {} s"
    and e: "entry_inv start goal s" and l: "link_inv g s"
    by (simp_all add: inv_opt_def)
  from e st show "\<exists>k. cost_so_far s (snd item) = Some k"
    unfolding entry_inv_def by blast
  have "opt_inv g goal ({snd item} \<times> set dirs4) (s\<lparr>frontier := fr\<rparr>)"
    unfolding opt_inv_def
  proof (intro allI impI)
    fix c k
    assume "cost_so_far (s\<lparr>frontier := fr\<rparr>) c = Some k"
    then have c: "cost_so_far s c = Some k" by simp
    show "(\<exists>p. (p, c) \<in> set (frontier (s\<lparr>frontier := fr\<rparr>)) \<and> p \<le> int k + heuristic goal c) \<or>
      (\<forall>d \<in> set dirs4.
         open_cell g (fst c + fst d, snd c + snd d) \<longrightarrow>
         (c, d) \<in> {snd item} \<times> set dirs4 \<or>
         (\<exists>kn. cost_so_far (s\<lparr>frontier := fr\<rparr>) (fst c + fst d, snd c + snd d) = Some kn \<and>
            kn \<le> k + 1))"
    proof (cases "c = snd item")
      case True
      then show ?thesis by simp
    next
      case False
      from o c have "(\<exists>p. (p, c) \<in> set (frontier s) \<and> p \<le> int k + heuristic goal c) \<or>
        (\<forall>d \<in> set dirs4.
           open_cell g (fst c + fst d, snd c + snd d) \<longrightarrow>
           (c, d) \<in> {} \<or>
           (\<exists>kn. cost_so_far s (fst c + fst d, snd c + snd d) = Some kn \<and> kn \<le> k + 1))"
        unfolding opt_inv_def by blast
      then show ?thesis
      proof
        assume "\<exists>p. (p, c) \<in> set (frontier s) \<and> p \<le> int k + heuristic goal c"
        then obtain p where p: "(p, c) \<in> set (frontier s)" "p \<le> int k + heuristic goal c"
          by blast
        from False have "(p, c) \<noteq> item" by auto
        with p(1) st have "(p, c) \<in> set fr" by simp
        with p(2) show ?thesis by auto
      next
        assume "\<forall>d \<in> set dirs4.
           open_cell g (fst c + fst d, snd c + snd d) \<longrightarrow>
           (c, d) \<in> {} \<or>
           (\<exists>kn. cost_so_far s (fst c + fst d, snd c + snd d) = Some kn \<and> kn \<le> k + 1)"
        then show ?thesis by simp
      qed
    qed
  qed
  moreover from e st have "entry_inv start goal (s\<lparr>frontier := fr\<rparr>)"
    by (simp add: entry_inv_def)
  moreover from l have "link_inv g (s\<lparr>frontier := fr\<rparr>)" by (simp add: link_inv_def)
  ultimately show "inv_opt g start goal ({snd item} \<times> set dirs4) (s\<lparr>frontier := fr\<rparr>)"
    using g by (simp add: inv_opt_def)
qed

lemma astar_step_inv_opt:
  assumes r: "rect w h g" "0 < h"
    and h: "inv_heap s"
    and i: "inv_opt g start goal {} s"
    and st: "astar_step goal visualize s = Inr (Next s')"
  shows "inv_opt g start goal {} s'"
proof -
  from st obtain item fr s2 where pop: "heappop (frontier s) = Inr (item, fr)"
    and ex: "expand goal (snd item) dirs4 (s\<lparr>frontier := fr\<rparr>) = Inr s2"
    and s': "s' = s2\<lparr>visited := insert (snd item) (visited s2),
        emitted := emitted s2 @
          (if visualize then [(insert (snd item) (visited s2), frontier s2, None)] else [])\<rparr>"
    unfolding dirs4_def by (rule astar_step_Next_cases)
  from h have hp: "is_heap (frontier s)" by (simp add: inv_heap_def)
  from pop_inv_opt(2) [OF hp i pop] obtain k where "cost_so_far s (snd item) = Some k" ..
  then have k: "cost_so_far (s\<lparr>frontier := fr\<rparr>) (snd item) = Some k" by simp
  from expand_inv_opt [OF r subset_refl k pop_inv_opt(1) [OF hp i pop] ex]
  have "inv_opt g start goal {} s2" .
  then show ?thesis
    by (simp add: s' inv_opt_def opt_inv_def entry_inv_def link_inv_def)
qed

text \<open>
  Along a walk to the goal from a cell of cost \<open>k\<close>: either the goal has a cost of at
  most \<open>k\<close> plus the number of steps of the walk, or the frontier has an entry with
  no greater a priority.
\<close>

lemma walk_hd_open: "walk g (a # rest) \<Longrightarrow> open_cell g a"
  by (cases rest) simp_all

lemma walk_reaches:
  assumes o: "opt_inv g goal {} s"
  shows "walk g (a # rest) \<Longrightarrow> last (a # rest) = goal \<Longrightarrow> cost_so_far s a = Some k \<Longrightarrow>
    (\<exists>kg. cost_so_far s goal = Some kg \<and> kg \<le> k + length rest) \<or>
    (\<exists>e \<in> set (frontier s). fst e \<le> int k + int (length rest))"
proof (induction rest arbitrary: a k)
  case Nil
  then show ?case by simp
next
  case (Cons b rest)
  from Cons.prems(1) have ab: "adjacent a b" and wb: "walk g (b # rest)" by simp_all
  from Cons.prems(2) have lb: "last (b # rest) = goal" by simp
  from o Cons.prems(3)
  have "(\<exists>p. (p, a) \<in> set (frontier s) \<and> p \<le> int k + heuristic goal a) \<or>
      (\<forall>d \<in> set dirs4.
         open_cell g (fst a + fst d, snd a + snd d) \<longrightarrow>
         (a, d) \<in> {} \<or>
         (\<exists>kn. cost_so_far s (fst a + fst d, snd a + snd d) = Some kn \<and> kn \<le> k + 1))"
    unfolding opt_inv_def by blast
  then show ?case
  proof
    assume "\<exists>p. (p, a) \<in> set (frontier s) \<and> p \<le> int k + heuristic goal a"
    then obtain p where p: "(p, a) \<in> set (frontier s)" "p \<le> int k + heuristic goal a"
      by blast
    from heuristic_walk [OF Cons.prems(1,2)] p(2)
    have "fst (p, a) \<le> int k + int (length (b # rest))" by simp
    with p(1) show ?thesis by blast
  next
    assume a: "\<forall>d \<in> set dirs4.
         open_cell g (fst a + fst d, snd a + snd d) \<longrightarrow>
         (a, d) \<in> {} \<or>
         (\<exists>kn. cost_so_far s (fst a + fst d, snd a + snd d) = Some kn \<and> kn \<le> k + 1)"
    from adjacent_dirs4 [OF ab] obtain d where d: "d \<in> set dirs4"
      "b = (fst a + fst d, snd a + snd d)" by blast
    from walk_hd_open [OF wb] d(2) have "open_cell g (fst a + fst d, snd a + snd d)" by simp
    with a d obtain kn where kn: "cost_so_far s b = Some kn" "kn \<le> k + 1" by auto
    from Cons.IH [OF wb lb kn(1)]
    show ?thesis
    proof
      assume "\<exists>kg. cost_so_far s goal = Some kg \<and> kg \<le> kn + length rest"
      with kn(2) have "\<exists>kg. cost_so_far s goal = Some kg \<and> kg \<le> k + length (b # rest)"
        by auto
      then show ?thesis ..
    next
      assume "\<exists>e \<in> set (frontier s). fst e \<le> int kn + int (length rest)"
      then obtain e where e: "e \<in> set (frontier s)" "fst e \<le> int kn + int (length rest)"
        by blast
      from e(2) kn(2) have "fst e \<le> int k + int (length (b # rest))" by simp
      with e(1) show ?thesis by blast
    qed
  qed
qed

text \<open>The chain of predecessors of a cell, reversed and after the start, is a walk.\<close>

lemma chain_walk:
  assumes "link_inv g s" "open_cell g start"
  shows "chain s start c w \<Longrightarrow>
    walk g (start # rev w) \<and> last (start # rev w) = c"
proof (induction w arbitrary: c)
  case Nil
  with assms(2) show ?case by simp
next
  case (Cons x w)
  from Cons.prems obtain p where x: "x = c" and p: "came_from s c = Some (Some p)"
    and ch: "chain s start p w"
    by auto
  from Cons.IH [OF ch] have w: "walk g (start # rev w)" and l: "last (start # rev w) = p"
    by simp_all
  from assms(1) p have "adjacent p c" "open_cell g c" unfolding link_inv_def by blast+
  with l have "adjacent (last (start # rev w)) c" "open_cell g c" by simp_all
  from walk_snoc [OF w this] x show ?case by simp
qed

lemma search_loop_opt:
  assumes "rect w h g" "0 < h"
  shows "\<exists>s0. (inv_all g start goal s0 \<and> inv_opt g start goal {} s0) \<and>
    (case search_loop goal visualize (astar_init g start) of
       Inl (e, snaps) \<Rightarrow>
         frontier s0 \<noteq> [] \<and> astar_step goal visualize s0 = Inl e \<and> snaps = emitted s0
     | Inr s' \<Rightarrow> frontier s0 = [] \<and> s' = s0 \<or>
         frontier s0 \<noteq> [] \<and> astar_step goal visualize s0 = Inr (Break s'))"
proof (rule search_loop_exit
    [where P = "\<lambda>s. inv_all g start goal s \<and> inv_opt g start goal {} s"])
  show "inv_all g start goal (astar_init g start) \<and>
      inv_opt g start goal {} (astar_init g start)"
    by (simp add: astar_init_all astar_init_inv_opt)
next
  fix s s'
  assume i: "inv_all g start goal s \<and> inv_opt g start goal {} s"
    and st: "astar_step goal visualize s = Inr (Next s')"
  from i have "inv_heap s" by (simp add: inv_all_def)
  from astar_step_inv_opt [OF assms this _ st] i astar_step_all [OF _ st]
  show "inv_all g start goal s' \<and> inv_opt g start goal {} s'" by blast
qed

text \<open>
  When the search loop ends, the cost of the goal is less than the number of cells
  of any walk from the start to the goal.
\<close>

lemma goal_cost_bound:
  assumes r: "rect w h g" "0 < h"
    and q: "path_from_to g start goal q"
    and sl: "search_loop goal visualize (astar_init g start) = Inr s'"
  shows "\<exists>k. cost_so_far s' goal = Some k \<and> k + 1 \<le> length q" and "link_inv g s'"
proof -
  from search_loop_opt [OF r, of start goal visualize] sl obtain s0
    where a: "inv_all g start goal s0" and o: "inv_opt g start goal {} s0"
      and ex: "frontier s0 = [] \<and> s' = s0 \<or>
        frontier s0 \<noteq> [] \<and> astar_step goal visualize s0 = Inr (Break s')"
    by auto
  from a have st0: "cost_so_far s0 start = Some 0" and hp: "is_heap (frontier s0)"
    by (simp_all add: inv_all_def inv_chain_def inv_heap_def)
  from o have oi: "opt_inv g goal {} s0" and ei: "entry_inv start goal s0"
    and li: "link_inv g s0"
    by (simp_all add: inv_opt_def)
  from q obtain rest where qq: "q = start # rest"
    by (cases q) (auto simp: path_from_to_def)
  with q have w: "walk g (start # rest)" "last (start # rest) = goal"
    by (simp_all add: path_from_to_def)
  from walk_reaches [OF oi w st0]
  have alt: "(\<exists>kg. cost_so_far s0 goal = Some kg \<and> kg \<le> length rest) \<or>
      (\<exists>e \<in> set (frontier s0). fst e \<le> int (length rest))"
    by simp
  from ex have c: "cost_so_far s' = cost_so_far s0" and l': "came_from s' = came_from s0"
    by (auto elim: astar_step_Break_cases)
  from li l' show "link_inv g s'" by (simp add: link_inv_def)
  have "\<exists>kg. cost_so_far s0 goal = Some kg \<and> kg \<le> length rest"
    using alt
  proof
    assume "\<exists>kg. cost_so_far s0 goal = Some kg \<and> kg \<le> length rest"
    then show ?thesis .
  next
    assume "\<exists>e \<in> set (frontier s0). fst e \<le> int (length rest)"
    then obtain e where e: "e \<in> set (frontier s0)" "fst e \<le> int (length rest)" by blast
    then have ne: "frontier s0 \<noteq> []" by auto
    with ex obtain p fr where pop: "heappop (frontier s0) = Inr ((p, goal), fr)"
      by (auto elim: astar_step_Break_cases)
    from heappop_heap_set(3) [OF hp pop] have top: "(p, goal) = frontier s0 ! 0" .
    from e(1) obtain i where i: "i < length (frontier s0)" "e = frontier s0 ! i"
      by (auto simp: in_set_conv_nth)
    from heap_min [OF hp i(1)] top i(2) have "(p, goal) \<le> e" by simp
    then have pe: "p \<le> fst e" by (auto simp: less_eq_prod_def)
    from top ne have "(p, goal) \<in> set (frontier s0)" by simp
    with ei obtain k where k: "cost_so_far s0 goal = Some k"
      "int k + heuristic goal goal \<le> p \<or> goal = start"
      unfolding entry_inv_def by fastforce
    from k(2) show ?thesis
    proof
      assume "int k + heuristic goal goal \<le> p"
      with pe e(2) have "k \<le> length rest" by simp
      with k(1) show ?thesis by simp
    next
      assume "goal = start"
      with st0 show ?thesis by simp
    qed
  qed
  with c qq show "\<exists>k. cost_so_far s' goal = Some k \<and> k + 1 \<le> length q" by simp
qed

section \<open>Properties of the search\<close>

text \<open>
  C1. On the grid \<open>[[0, 1, 0]]\<close> the cell \<open>(2, 0)\<close> cannot be reached from \<open>(0, 0)\<close>:
  the wall \<open>(1, 0)\<close> lies between them. The path of the final snapshot of \<open>astar\<close> is
  \<open>[(0, 0)]\<close>, not the empty list: line 110 empties the path, and line 114 appends
  the start to it after the \<open>break\<close>.
\<close>

theorem astar_unreachable_path_is_start:
  "astar_path [[0, 1, 0]] (0, 0) (2, 0) False = Some (Inr (Some [(0, 0)]))"
  by code_simp

text \<open>
  C10. The goal is in the visited set of no loop head and of no snapshot of a run,
  whether the run ends with the final snapshot or by an exception. When the start
  is the goal the run ends with the final snapshot, whose visited set is empty.
\<close>

theorem goal_never_visited:
  "(\<forall>n s. search_iter goal visualize n (astar_init g start) = Some s \<longrightarrow> goal \<notin> visited s) \<and>
   (\<exists>r. astar g start goal visualize = Some r \<and>
      (\<forall>snap \<in> set (snapshots r). goal \<notin> fst snap) \<and>
      (start = goal \<longrightarrow>
         (\<exists>s. r = Inr s \<and> emitted s \<noteq> [] \<and> fst (last (emitted s)) = {})))"
proof (intro conjI allI impI)
  fix n s
  assume "search_iter goal visualize n (astar_init g start) = Some s"
  from search_iter_all [OF this] show "goal \<notin> visited s"
    by (simp add: inv_all_def inv_frame_def)
next
  show "\<exists>r. astar g start goal visualize = Some r \<and>
      (\<forall>snap \<in> set (snapshots r). goal \<notin> fst snap) \<and>
      (start = goal \<longrightarrow>
         (\<exists>s. r = Inr s \<and> emitted s \<noteq> [] \<and> fst (last (emitted s)) = {}))"
  proof (cases "search_loop goal visualize (astar_init g start)")
    case (Inl err)
    obtain e snaps where err: "err = (e, snaps)" by (cases err)
    from search_loop_all [of g start goal visualize] Inl err obtain s0
      where s0: "inv_all g start goal s0" "snaps = emitted s0"
      by auto
    then have "\<forall>snap \<in> set snaps. goal \<notin> fst snap"
      by (simp add: inv_all_def inv_frame_def)
    moreover from Inl have "start \<noteq> goal"
      using search_loop_start_goal [of goal visualize g] by auto
    ultimately show ?thesis
      using astar_Inl [OF Inl] by (simp add: snapshots_def err)
  next
    case (Inr s')
    from search_loop_Inr_all [OF Inr] have fr: "goal \<notin> visited s'"
      "\<forall>snap \<in> set (emitted s'). goal \<notin> fst snap"
      by (simp_all add: inv_all_def inv_frame_def)
    from astar_Inr [OF Inr] obtain P more
      where a: "astar g start goal visualize =
          Some (Inr (s'\<lparr>emitted := emitted s' @ more @
            [(visited s', frontier s', Some (rev (P @ [start])))]\<rparr>))"
        and m: "\<forall>snap \<in> set more. fst snap = visited s'"
      by blast
    let ?r = "s'\<lparr>emitted := emitted s' @ more @
            [(visited s', frontier s', Some (rev (P @ [start])))]\<rparr>"
    from fr m have 1: "\<forall>snap \<in> set (snapshots (Inr ?r)). goal \<notin> fst snap"
      by (auto simp: snapshots_def)
    have 2: "start = goal \<longrightarrow> (\<exists>s. Inr ?r = (Inr s :: py_error \<times> snapshot list + astar_state) \<and>
        emitted s \<noteq> [] \<and> fst (last (emitted s)) = {})"
    proof
      assume "start = goal"
      with Inr search_loop_start_goal [of goal visualize g]
      have "visited s' = {}" by (simp add: astar_init_def)
      then show "\<exists>s. Inr ?r = (Inr s :: py_error \<times> snapshot list + astar_state) \<and>
        emitted s \<noteq> [] \<and> fst (last (emitted s)) = {}"
        by (intro exI [of _ ?r]) simp
    qed
    from a 1 2 show ?thesis by (intro exI [of _ "Inr ?r"] conjI)
  qed
qed

theorem goal_never_visited_witness:
  "(\<exists>s. search_iter (2, 2) True 2 (astar_init [[0, 0, 0], [0, 1, 0], [0, 0, 0]] (0, 0)) = Some s \<and>
      visited s \<noteq> {} \<and> (2, 2) \<notin> visited s) \<and>
   (\<exists>r. astar [[0, 0, 0], [0, 1, 0], [0, 0, 0]] (0, 0) (2, 2) True = Some r \<and>
      snapshots r \<noteq> [] \<and> (\<forall>snap \<in> set (snapshots r). (2, 2) \<notin> fst snap)) \<and>
   (\<exists>s. astar [[0, 0, 0], [0, 1, 0], [0, 0, 0]] (2, 2) (2, 2) True = Some (Inr s) \<and>
      emitted s \<noteq> [] \<and> fst (last (emitted s)) = {})"
proof (intro conjI)
  let ?G = "[[0, 0, 0], [0, 1, 0], [0, 0, 0]] :: grid_t"
  have "map_option (\<lambda>s. (0, 0) \<in> visited s)
      (search_iter (2, 2) True 2 (astar_init ?G (0, 0))) = Some True"
    by code_simp
  then obtain s where s: "search_iter (2, 2) True 2 (astar_init ?G (0, 0)) = Some s"
    and v: "(0, 0) \<in> visited s"
    by auto
  from goal_never_visited [of "(2, 2)" True ?G "(0, 0)"] s have "(2, 2) \<notin> visited s"
    by blast
  with s v show "\<exists>s. search_iter (2, 2) True 2 (astar_init ?G (0, 0)) = Some s \<and>
      visited s \<noteq> {} \<and> (2, 2) \<notin> visited s"
    by (intro exI [of _ s]) auto
next
  let ?G = "[[0, 0, 0], [0, 1, 0], [0, 0, 0]] :: grid_t"
  have n: "map_option (\<lambda>r. 0 < length (snapshots r)) (astar ?G (0, 0) (2, 2) True) = Some True"
    by code_simp
  from goal_never_visited [of "(2, 2)" True ?G "(0, 0)"] obtain r
    where r: "astar ?G (0, 0) (2, 2) True = Some r"
      "\<forall>snap \<in> set (snapshots r). (2, 2) \<notin> fst snap"
    by blast
  from n r(1) have "snapshots r \<noteq> []" by auto
  with r show "\<exists>r. astar ?G (0, 0) (2, 2) True = Some r \<and>
      snapshots r \<noteq> [] \<and> (\<forall>snap \<in> set (snapshots r). (2, 2) \<notin> fst snap)"
    by (intro exI [of _ r]) simp
next
  let ?G = "[[0, 0, 0], [0, 1, 0], [0, 0, 0]] :: grid_t"
  from goal_never_visited [of "(2, 2)" True ?G "(2, 2)"]
  show "\<exists>s. astar ?G (2, 2) (2, 2) True = Some (Inr s) \<and>
      emitted s \<noteq> [] \<and> fst (last (emitted s)) = {}"
    by auto
qed

text \<open>
  C9. The grid of every loop head of the search is the grid that was passed in, and
  so is the grid of the state in which a run ends; a run that ends by an exception
  ends it within an iteration that began with the grid unchanged.
\<close>

theorem astar_never_mutates_grid:
  "(\<forall>n s. search_iter goal visualize n (astar_init g start) = Some s \<longrightarrow> sgrid s = g) \<and>
   (\<exists>r. astar g start goal visualize = Some r \<and> (\<forall>s. r = Inr s \<longrightarrow> sgrid s = g))"
proof (intro conjI allI impI)
  fix n s
  assume "search_iter goal visualize n (astar_init g start) = Some s"
  from search_iter_all [OF this] show "sgrid s = g"
    by (simp add: inv_all_def inv_frame_def)
next
  show "\<exists>r. astar g start goal visualize = Some r \<and> (\<forall>s. r = Inr s \<longrightarrow> sgrid s = g)"
  proof (cases "search_loop goal visualize (astar_init g start)")
    case (Inl err)
    from astar_Inl [OF this] show ?thesis by simp
  next
    case (Inr s')
    from search_loop_Inr_all [OF Inr] have "sgrid s' = g"
      by (simp add: inv_all_def inv_frame_def)
    with astar_Inr [OF Inr] show ?thesis by auto
  qed
qed

theorem astar_never_mutates_grid_witness:
  "(\<exists>s. search_iter (2, 2) True 3 (astar_init [[0, 0, 0], [0, 1, 0], [0, 0, 0]] (0, 0)) = Some s \<and>
      sgrid s = [[0, 0, 0], [0, 1, 0], [0, 0, 0]]) \<and>
   (\<exists>s. astar [[0, 0, 0], [0, 1, 0], [0, 0, 0]] (0, 0) (2, 2) True = Some (Inr s) \<and>
      sgrid s = [[0, 0, 0], [0, 1, 0], [0, 0, 0]])"
proof (intro conjI)
  let ?G = "[[0, 0, 0], [0, 1, 0], [0, 0, 0]] :: grid_t"
  have "map_option (\<lambda>s. True) (search_iter (2, 2) True 3 (astar_init ?G (0, 0))) = Some True"
    by code_simp
  then obtain s where s: "search_iter (2, 2) True 3 (astar_init ?G (0, 0)) = Some s"
    by auto
  with astar_never_mutates_grid [of "(2, 2)" True ?G "(0, 0)"] have "sgrid s = ?G"
    by blast
  with s show "\<exists>s. search_iter (2, 2) True 3 (astar_init ?G (0, 0)) = Some s \<and> sgrid s = ?G"
    by (intro exI [of _ s]) simp
next
  let ?G = "[[0, 0, 0], [0, 1, 0], [0, 0, 0]] :: grid_t"
  have n: "map_option isl (astar ?G (0, 0) (2, 2) True) = Some False"
    by code_simp
  from astar_never_mutates_grid [of "(2, 2)" True ?G "(0, 0)"] obtain r
    where r: "astar ?G (0, 0) (2, 2) True = Some r" "\<forall>s. r = Inr s \<longrightarrow> sgrid s = ?G"
    by blast
  from n r(1) obtain s where "r = Inr s" by (cases r) auto
  with r show "\<exists>s. astar ?G (0, 0) (2, 2) True = Some (Inr s) \<and> sgrid s = ?G"
    by (intro exI [of _ s]) simp
qed



text \<open>
  C4. \<open>astar\<close> does not look at the start and the goal before it searches. On the
  grid \<open>[[1, 0]]\<close> the start \<open>(0, 0)\<close> is a wall, and the run from it to \<open>(1, 0)\<close> ends
  with the path from the wall to the goal.
\<close>

theorem astar_accepts_wall_start:
  "grid_get [[1, 0]] 0 0 = Inr 1 \<and>
   astar_path [[1, 0]] (0, 0) (1, 0) False = Some (Inr (Some [(0, 0), (1, 0)]))"
  by code_simp

text \<open>
  C4, as the code has it. On a rectangular grid with at least one row, whatever the
  start and the goal are, within the grid or not, open or not, the run raises no
  exception: it searches and ends with a final snapshot that carries a path.
\<close>

theorem astar_runs_without_validation:
  assumes "rect w h g" "0 < h"
  shows "\<exists>s p. astar g start goal visualize = Some (Inr s) \<and> final_path s = Some p"
proof -
  from search_loop_no_error [OF assms, of goal visualize start] obtain s'
    where s': "search_loop goal visualize (astar_init g start) = Inr s'" by blast
  from astar_Inr [OF s'] obtain P more
    where a: "astar g start goal visualize =
        Some (Inr (s'\<lparr>emitted := emitted s' @ more @
          [(visited s', frontier s', Some (rev (P @ [start])))]\<rparr>))"
    by blast
  have "final_path (s'\<lparr>emitted := emitted s' @ more @
          [(visited s', frontier s', Some (rev (P @ [start])))]\<rparr>) = Some (rev (P @ [start]))"
    by (simp add: final_path_last)
  with a show ?thesis by blast
qed

theorem astar_runs_without_validation_witness:
  "rect 2 1 [[1, 0]] \<and> (0::int) < 1 \<and>
   (\<exists>s p. astar [[1, 0]] (5, 7) (0, 0) True = Some (Inr s) \<and> final_path s = Some p)"
proof (intro conjI)
  show r: "rect 2 1 [[1, 0]]" by (simp add: rect_def)
  show h: "(0::int) < 1" by simp
  show "\<exists>s p. astar [[1, 0]] (5, 7) (0, 0) True = Some (Inr s) \<and> final_path s = Some p"
    by (rule astar_runs_without_validation [OF r h])
qed

text \<open>
  C2. On a rectangular grid, when there is a walk from the start to the goal, a list
  of open cells from the start to the goal each adjacent to the next, \<open>astar\<close> ends
  with a final snapshot whose path is such a walk, and no walk from the start to
  the goal has fewer cells. The least number of cells of a walk is the distance that
  a breadth-first search finds.
\<close>

theorem astar_finds_shortest_path:
  assumes "rect w h g" and "path_from_to g start goal q"
  shows "\<exists>s p. astar g start goal visualize = Some (Inr s) \<and> final_path s = Some p \<and>
    path_from_to g start goal p \<and>
    (\<forall>q'. path_from_to g start goal q' \<longrightarrow> length p \<le> length q')"
proof -
  from assms(2) have os: "open_cell g start"
    by (cases q) (auto simp: path_from_to_def dest: walk_hd_open)
  then have "0 < length g" by (auto simp: open_cell_def)
  with assms(1) have h: "0 < h" by (simp add: rect_def)
  from search_loop_no_error [OF assms(1) h, of goal visualize start] obtain s'
    where sl: "search_loop goal visualize (astar_init g start) = Inr s'" by blast
  from goal_cost_bound [OF assms(1) h assms(2) sl] obtain k
    where k: "cost_so_far s' goal = Some k" and li: "link_inv g s'"
    by blast
  from astar_Inr [OF sl] k obtain P more
    where a: "astar g start goal visualize =
        Some (Inr (s'\<lparr>emitted := emitted s' @ more @
          [(visited s', frontier s', Some (rev (P @ [start])))]\<rparr>))"
      and ch: "chain s' start goal P" and len: "length P \<le> k"
    by auto
  let ?s = "s'\<lparr>emitted := emitted s' @ more @
          [(visited s', frontier s', Some (rev (P @ [start])))]\<rparr>"
  have fp: "final_path ?s = Some (start # rev P)"
    by (simp add: final_path_last)
  from chain_walk [OF li os ch] have pw: "path_from_to g start goal (start # rev P)"
    by (simp add: path_from_to_def)
  have mn: "\<forall>q'. path_from_to g start goal q' \<longrightarrow> length (start # rev P) \<le> length q'"
  proof (intro allI impI)
    fix q'
    assume "path_from_to g start goal q'"
    from goal_cost_bound(1) [OF assms(1) h this sl] k len
    show "length (start # rev P) \<le> length q'" by simp
  qed
  from a fp pw mn show ?thesis by blast
qed

theorem astar_finds_shortest_path_witness:
  "rect 3 3 [[0, 0, 0], [0, 1, 0], [0, 0, 0]] \<and>
   path_from_to [[0, 0, 0], [0, 1, 0], [0, 0, 0]] (0, 0) (2, 2)
     [(0, 0), (1, 0), (2, 0), (2, 1), (2, 2)] \<and>
   astar_path [[0, 0, 0], [0, 1, 0], [0, 0, 0]] (0, 0) (2, 2) False =
     Some (Inr (Some [(0, 0), (0, 1), (0, 2), (1, 2), (2, 2)])) \<and>
   (\<exists>s p. astar [[0, 0, 0], [0, 1, 0], [0, 0, 0]] (0, 0) (2, 2) False = Some (Inr s) \<and>
      final_path s = Some p \<and>
      path_from_to [[0, 0, 0], [0, 1, 0], [0, 0, 0]] (0, 0) (2, 2) p \<and>
      (\<forall>q'. path_from_to [[0, 0, 0], [0, 1, 0], [0, 0, 0]] (0, 0) (2, 2) q' \<longrightarrow>
         length p \<le> length q'))"
proof (intro conjI)
  show r: "rect 3 3 [[0, 0, 0], [0, 1, 0], [0, 0, 0]]"
    by (simp add: rect_def)
  show q: "path_from_to [[0, 0, 0], [0, 1, 0], [0, 0, 0]] (0, 0) (2, 2)
     [(0, 0), (1, 0), (2, 0), (2, 1), (2, 2)]"
    by (simp add: path_from_to_def open_cell_def adjacent_def)
  show "astar_path [[0, 0, 0], [0, 1, 0], [0, 0, 0]] (0, 0) (2, 2) False =
     Some (Inr (Some [(0, 0), (0, 1), (0, 2), (1, 2), (2, 2)]))"
    by code_simp
  show "\<exists>s p. astar [[0, 0, 0], [0, 1, 0], [0, 0, 0]] (0, 0) (2, 2) False = Some (Inr s) \<and>
      final_path s = Some p \<and>
      path_from_to [[0, 0, 0], [0, 1, 0], [0, 0, 0]] (0, 0) (2, 2) p \<and>
      (\<forall>q'. path_from_to [[0, 0, 0], [0, 1, 0], [0, 0, 0]] (0, 0) (2, 2) q' \<longrightarrow>
         length p \<le> length q')"
    by (rule astar_finds_shortest_path [OF r q])
qed

end
